theory Spec2Isabelle
  imports Complex_Main
begin

section \<open>Strings and the regular expressions of the source\<close>

text \<open>
  A Python \<open>str\<close> is a sequence of code points. Titles are modelled as \<open>string\<close> with one
  \<open>char\<close> per code point, covering the code points U+0000 to U+00FF (ASCII and Latin-1, which
  holds the accented letters of the French titles); \<open>length\<close> therefore counts code points, as
  \<open>len\<close> does. The character classes below are the ones CPython uses on that range for
  \<open>str.isspace\<close> / \<open>\s\<close>, for \<open>\d\<close>, for \<open>\w\<close> and for \<open>str.lower\<close>.
\<close>

definition isspace :: "char \<Rightarrow> bool" where
  "isspace c = (let n = (of_char c :: nat) in
     (9 \<le> n \<and> n \<le> 13) \<or> (28 \<le> n \<and> n \<le> 32) \<or> n = 133 \<or> n = 160)"

definition isdigit :: "char \<Rightarrow> bool" where
  "isdigit c = (let n = (of_char c :: nat) in 48 \<le> n \<and> n \<le> 57)"

definition isalpha :: "char \<Rightarrow> bool" where
  "isalpha c = (let n = (of_char c :: nat) in
     (65 \<le> n \<and> n \<le> 90) \<or> (97 \<le> n \<and> n \<le> 122) \<or> n = 170 \<or> n = 181 \<or> n = 186 \<or>
     (192 \<le> n \<and> n \<le> 214) \<or> (216 \<le> n \<and> n \<le> 246) \<or> 248 \<le> n)"

definition isword :: "char \<Rightarrow> bool" where
  "isword c = (let n = (of_char c :: nat) in
     isalpha c \<or> isdigit c \<or> n = 95 \<or> n = 178 \<or> n = 179 \<or> n = 185 \<or> (188 \<le> n \<and> n \<le> 190))"

definition lower_char :: "char \<Rightarrow> char" where
  "lower_char c = (let n = (of_char c :: nat) in
     if (65 \<le> n \<and> n \<le> 90) \<or> (192 \<le> n \<and> n \<le> 222 \<and> n \<noteq> 215) then char_of (n + 32) else c)"

definition lower :: "string \<Rightarrow> string" where
  "lower s = map lower_char s"

definition strip :: "string \<Rightarrow> string" where
  "strip s = rev (dropWhile isspace (rev (dropWhile isspace s)))"

text \<open>
  The patterns handed to \<open>re.sub\<close>, \<open>re.search\<close> and \<open>re.match\<close>. \<open>ChrI\<close> is a literal under
  \<open>re.IGNORECASE\<close>; \<open>Bol\<close> is \<open>^\<close>, \<open>Eol\<close> is \<open>$\<close> (the end, or just before a final newline),
  \<open>Dot\<close> is \<open>.\<close> (anything but a newline).
\<close>

datatype regex =
    Eps
  | Chr char
  | ChrI char
  | Cls "char \<Rightarrow> bool"
  | Dot
  | Bol
  | Eol
  | Seq regex regex
  | Alt regex regex
  | Star regex

text \<open>
  \<open>rmatch r b s\<close> runs the backtracking matcher of \<open>re\<close> on the text \<open>s\<close> that remains
  (\<open>b\<close> tells whether \<open>s\<close> starts at position 0) and lists what is left after every way \<open>r\<close>
  can match there, in the order in which backtracking tries them: sequence tries the
  continuations of the first sub-match first, alternation tries its left branch first, the
  greedy star tries one more iteration before stopping (and gives up an iteration that
  consumes nothing). The head of the list is the match \<open>re\<close> reports.
\<close>

fun rmatch :: "regex \<Rightarrow> bool \<Rightarrow> string \<Rightarrow> string list" where
  "rmatch Eps b s = [s]"
| "rmatch (Chr a) b s = (case s of [] \<Rightarrow> [] | c # cs \<Rightarrow> if c = a then [cs] else [])"
| "rmatch (ChrI a) b s =
     (case s of [] \<Rightarrow> [] | c # cs \<Rightarrow> if lower_char c = lower_char a then [cs] else [])"
| "rmatch (Cls p) b s = (case s of [] \<Rightarrow> [] | c # cs \<Rightarrow> if p c then [cs] else [])"
| "rmatch Dot b s = (case s of [] \<Rightarrow> [] | c # cs \<Rightarrow> if c \<noteq> CHR 0x0A then [cs] else [])"
| "rmatch Bol b s = (if b then [s] else [])"
| "rmatch Eol b s = (if s = [] \<or> s = [CHR 0x0A] then [s] else [])"
| "rmatch (Seq r1 r2) b s =
     concat (map (\<lambda>s'. rmatch r2 (b \<and> length s' = length s) s') (rmatch r1 b s))"
| "rmatch (Alt r1 r2) b s = rmatch r1 b s @ rmatch r2 b s"
| "rmatch (Star r) b s =
     concat (map (\<lambda>s'. if length s' < length s then rmatch (Star r) False s' else [])
                 (rmatch r b s)) @ [s]"

text \<open>The equation of the star unfolds itself: it is applied by hand in the proofs.\<close>

declare rmatch.simps(10) [simp del]

definition Plus :: "regex \<Rightarrow> regex" where
  "Plus r = Seq r (Star r)"

definition Opt :: "regex \<Rightarrow> regex" where
  "Opt r = Alt r Eps"

fun Lit :: "string \<Rightarrow> regex" where
  "Lit [] = Eps"
| "Lit (c # cs) = Seq (Chr c) (Lit cs)"

fun LitI :: "string \<Rightarrow> regex" where
  "LitI [] = Eps"
| "LitI (c # cs) = Seq (ChrI c) (LitI cs)"

fun Alts :: "regex list \<Rightarrow> regex" where
  "Alts [] = Cls (\<lambda>c. False)"
| "Alts [r] = r"
| "Alts (r # rs) = Alt r (Alts rs)"

fun Seqs :: "regex list \<Rightarrow> regex" where
  "Seqs [] = Eps"
| "Seqs [r] = r"
| "Seqs (r # rs) = Seq r (Seqs rs)"

text \<open>
  \<open>re.sub(pattern, repl, s)\<close>: scan from the left; where the pattern matches, write \<open>repl\<close> and
  go on after the match; elsewhere copy one character. \<open>b\<close> is true at position 0 only.
  A match that consumes nothing writes \<open>repl\<close> and copies the next character.
\<close>

function re_sub_from :: "regex \<Rightarrow> string \<Rightarrow> bool \<Rightarrow> string \<Rightarrow> string" where
  "re_sub_from r repl b s =
     (case rmatch r b s of
        [] \<Rightarrow> (case s of [] \<Rightarrow> [] | c # cs \<Rightarrow> c # re_sub_from r repl False cs)
      | s' # _ \<Rightarrow>
          if length s' < length s then repl @ re_sub_from r repl False s'
          else (case s of [] \<Rightarrow> repl | c # cs \<Rightarrow> repl @ c # re_sub_from r repl False cs))"
  by pat_completeness auto
termination
  by (relation "measure (\<lambda>(r, repl, b, s). length s)") auto

definition re_sub :: "regex \<Rightarrow> string \<Rightarrow> string \<Rightarrow> string" where
  "re_sub r repl s = re_sub_from r repl True s"

text \<open>\<open>re.search(pattern, s)\<close>: the text matched at the leftmost position where the pattern matches.\<close>

fun re_search_from :: "regex \<Rightarrow> bool \<Rightarrow> string \<Rightarrow> string option" where
  "re_search_from r b s =
     (case rmatch r b s of
        s' # _ \<Rightarrow> Some (take (length s - length s') s)
      | [] \<Rightarrow> (case s of [] \<Rightarrow> None | c # cs \<Rightarrow> re_search_from r False cs))"

definition re_search :: "regex \<Rightarrow> string \<Rightarrow> string option" where
  "re_search r s = re_search_from r True s"

text \<open>These two equations unfold themselves as well.\<close>

declare re_sub_from.simps [simp del]

declare re_search_from.simps [simp del]

text \<open>\<open>re.match(pattern, s)\<close> as a truth value: does the pattern match at position 0?\<close>

definition re_match :: "regex \<Rightarrow> string \<Rightarrow> bool" where
  "re_match r s = (rmatch r True s \<noteq> [])"

section \<open>Title normalisation (\<open>main.py\<close>, \<open>services/merger.py\<close>)\<close>

abbreviation ws :: regex where
  "ws \<equiv> Cls isspace"

text \<open>The class \<open>[ivxlc0-9]\<close> of the series numerals.\<close>

definition series_numeral :: "char \<Rightarrow> bool" where
  "series_numeral c = (c \<in> set ''ivxlc'' \<or> isdigit c)"

text \<open>\<open>^(the\s+)?dark\s+tower\s*[ivxlc0-9]*\s*:\s*\<close>\<close>

definition dark_tower_re :: regex where
  "dark_tower_re = Seqs [Bol, Opt (Seq (Lit ''the'') (Plus ws)), Lit ''dark'', Plus ws, Lit ''tower'',
     Star ws, Star (Cls series_numeral), Star ws, Chr CHR '':'', Star ws]"

text \<open>\<open>^la\s+tour\s+sombre\s*[ivxlc0-9]*\s*:\s*\<close>\<close>

definition tour_sombre_re :: regex where
  "tour_sombre_re = Seqs [Bol, Lit ''la'', Plus ws, Lit ''tour'', Plus ws, Lit ''sombre'',
     Star ws, Star (Cls series_numeral), Star ws, Chr CHR '':'', Star ws]"

text \<open>\<open>^gwendy[''s]*\s*\<close>: the class holds the apostrophe and the letter s.\<close>

definition gwendy_re :: regex where
  "gwendy_re = Seqs [Bol, Lit ''gwendy'', Star (Cls (\<lambda>c. c = CHR 0x27 \<or> c = CHR ''s'')), Star ws]"

text \<open>\<open>^(the|a|an|le|la|les|l'|un|une)\s+\<close>\<close>

definition article_re :: regex where
  "article_re = Seqs [Bol,
     Alts [Lit ''the'', Lit ''a'', Lit ''an'', Lit ''le'', Lit ''la'', Lit ''les'',
           Lit [CHR ''l'', CHR 0x27], Lit ''un'', Lit ''une''],
     Plus ws]"

text \<open>\<open>^(the|a|an)\s+\<close>\<close>

definition merger_article_re :: regex where
  "merger_article_re = Seqs [Bol, Alts [Lit ''the'', Lit ''a'', Lit ''an''], Plus ws]"

text \<open>\<open>[^\w\s]\<close> and \<open>\s+\<close>\<close>

definition punct_re :: regex where
  "punct_re = Cls (\<lambda>c. \<not> isword c \<and> \<not> isspace c)"

definition spaces_re :: regex where
  "spaces_re = Plus ws"

text \<open>\<open>normalize_title\<close> of \<open>main.py\<close>, statement by statement.\<close>

definition normalize_title :: "string \<Rightarrow> string" where
  "normalize_title title0 =
     (let title = strip (lower title0);
          title = re_sub dark_tower_re '''' title;
          title = re_sub tour_sombre_re '''' title;
          title = re_sub gwendy_re '''' title;
          title = re_sub article_re '''' title;
          title = re_sub punct_re '''' title;
          title = re_sub spaces_re '' '' title
      in strip title)"

text \<open>\<open>BookMerger._normalize\<close>.\<close>

definition merger_normalize :: "string \<Rightarrow> string" where
  "merger_normalize title0 =
     (let title = strip (lower title0);
          title = re_sub merger_article_re '''' title;
          title = re_sub punct_re '''' title;
          title = re_sub spaces_re '' '' title
      in strip title)"

section \<open>Edition variants and the existence check (\<open>services/merger.py\<close>)\<close>

text \<open>
  The eight patterns of \<open>_extract_base_title\<close>, in the order of the source. They are used
  with \<open>re.IGNORECASE\<close>, so their letters are \<open>LitI\<close>. Each ends in \<open>.*$\<close>.
\<close>

definition to_end :: "regex list" where
  "to_end = [Star Dot, Eol]"

definition edition_patterns :: "regex list" where
  "edition_patterns =
    [Seqs ([Plus ws, LitI ''the'', Plus ws, LitI ''complete''] @ to_end),
     Seqs ([Plus ws, LitI ''complete'', Star ws, Opt (Seq (LitI ''and'') (Star ws)), LitI ''uncut'']
           @ to_end),
     Seqs ([Plus ws, LitI ''uncut'', Star ws, LitI ''edition''] @ to_end),
     Seqs ([Plus ws, LitI ''expanded'', Star ws, LitI ''edition''] @ to_end),
     Seqs ([Plus ws, LitI ''special'', Star ws, LitI ''edition''] @ to_end),
     Seqs ([Plus ws, LitI ''illustrated'', Star ws, LitI ''edition''] @ to_end),
     Seqs ([Plus ws, LitI ''directors'', Star ws, LitI ''cut''] @ to_end),
     Seqs ([Plus ws, Cls isdigit, Cls isdigit, Cls isdigit, Cls isdigit, Star ws, LitI ''edition'']
           @ to_end)]"

text \<open>The loop \<open>for pattern in patterns: result = re.sub(pattern, "", result)\<close>.\<close>

fun strip_patterns :: "regex list \<Rightarrow> string \<Rightarrow> string" where
  "strip_patterns [] result = result"
| "strip_patterns (pattern # patterns) result = strip_patterns patterns (re_sub pattern '''' result)"

definition extract_base_title :: "string \<Rightarrow> string" where
  "extract_base_title title = strip (strip_patterns edition_patterns title)"

text \<open>
  \<open>BookMerger._is_existing\<close>. \<open>existing_normalized\<close> is a Python set: membership is \<open>\<in>\<close>, and the
  final loop, which returns True at the first element that passes the test and False when
  none does, is the bounded existential (its result does not depend on the iteration order).
\<close>

definition is_existing :: "string \<Rightarrow> string set \<Rightarrow> bool" where
  "is_existing normalized_key existing_normalized =
     (if normalized_key \<in> existing_normalized then True
      else let base_title = extract_base_title normalized_key in
        if base_title \<noteq> normalized_key \<and> base_title \<in> existing_normalized then True
        else (\<exists>existing \<in> existing_normalized.
                base_title = extract_base_title existing \<and> length base_title > 3))"

section \<open>The similarity matcher (\<open>main.py\<close>)\<close>

text \<open>
  The inner loop of \<open>levenshtein_distance\<close>: \<open>for j, c2 in enumerate(s2)\<close>, appending to
  \<open>curr_row\<close>. \<open>c1 != c2\<close> counts as 1 or 0. Both rows hold \<open>len(s2) + 1\<close> entries when the
  loop is over, so every index read below is in range.
\<close>

fun inner_loop :: "char \<Rightarrow> string \<Rightarrow> nat list \<Rightarrow> nat list \<Rightarrow> nat \<Rightarrow> nat list" where
  "inner_loop c1 [] prev_row curr_row j = curr_row"
| "inner_loop c1 (c2 # rest) prev_row curr_row j =
     (let insertions = prev_row ! (j + 1) + 1;
          deletions = curr_row ! j + 1;
          substitutions = prev_row ! j + (if c1 \<noteq> c2 then 1 else 0)
      in inner_loop c1 rest prev_row
           (curr_row @ [min insertions (min deletions substitutions)]) (j + 1))"

text \<open>The outer loop \<open>for i, c1 in enumerate(s1)\<close>.\<close>

fun outer_loop :: "string \<Rightarrow> string \<Rightarrow> nat list \<Rightarrow> nat \<Rightarrow> nat list" where
  "outer_loop [] s2 prev_row i = prev_row"
| "outer_loop (c1 # rest) s2 prev_row i =
     outer_loop rest s2 (inner_loop c1 s2 prev_row [i + 1] 0) (i + 1)"

definition levenshtein_distance :: "string \<Rightarrow> string \<Rightarrow> nat" where
  "levenshtein_distance a b =
     (let (s1, s2) = (if length a < length b then (b, a) else (a, b)) in
      if s2 = [] then length s1
      else last (outer_loop s1 s2 [0 ..< length s2 + 1] 0))"

text \<open>
  The \<open>float\<close> of Python is the IEEE double. A finite double is a rational number, and the
  results of \<open>int / int\<close> and of a float subtraction are the exact results rounded to the
  nearest double, ties to the even significand. \<open>bit_length\<close> is the number of binary digits
  of a positive integer; \<open>binade x\<close> is the exponent \<open>e\<close> with \<open>2^e \<le> x < 2^(e+1)\<close> of a positive
  \<open>x\<close>; the doubles in that range are the multiples of \<open>2^(e-52)\<close>, and of \<open>2^(-1074)\<close> below
  \<open>2^(-1022)\<close>. Numbers beyond the largest double are not reached here: the quotient is at
  most 1.
\<close>

function bit_length :: "int \<Rightarrow> nat" where
  "bit_length n = (if n \<le> 0 then 0 else Suc (bit_length (n div 2)))"
  by pat_completeness auto
termination
  by (relation "measure nat") auto

declare bit_length.simps [simp del]

definition binade :: "rat \<Rightarrow> int" where
  "binade x =
     (let (p, q) = quotient_of x;
          k = int (bit_length p) - int (bit_length q)
      in if 2 powi k \<le> x then k else k - 1)"

definition round_half_even :: "rat \<Rightarrow> int" where
  "round_half_even y =
     (let f = \<lfloor>y\<rfloor>; r = y - of_int f
      in if r < 1 / 2 then f else if 1 / 2 < r then f + 1 else if even f then f else f + 1)"

definition round_positive :: "rat \<Rightarrow> rat" where
  "round_positive x =
     (let quantum = 2 powi (max (binade x) (- 1022) - 52)
      in of_int (round_half_even (x / quantum)) * quantum)"

definition round_double :: "rat \<Rightarrow> rat" where
  "round_double x =
     (if x = 0 then 0 else if x < 0 then - round_positive (- x) else round_positive x)"

text \<open>
  \<open>is_similar_title\<close>. \<open>distance / max_len\<close> is the rounded quotient of two integers and
  \<open>1 - (...)\<close> a rounded float subtraction; \<open>threshold\<close> is the value of the float that is
  passed, and \<open>>=\<close> compares the two values exactly. The default threshold is the double that
  the literal \<open>0.85\<close> denotes.
\<close>

definition is_similar_title :: "string \<Rightarrow> string \<Rightarrow> rat \<Rightarrow> bool" where
  "is_similar_title title1 title2 threshold =
     (if title1 = [] \<or> title2 = [] then False
      else if title1 = title2 then True
      else if length title1 < 5 \<or> length title2 < 5 then False
      else let distance = levenshtein_distance title1 title2;
               max_len = max (length title1) (length title2);
               ratio = round_double (1 - round_double (of_nat distance / of_nat max_len))
           in ratio \<ge> threshold)"

definition default_threshold :: rat where
  "default_threshold = round_double (85 / 100)"

text \<open>
  The edit distance in the words of the specification: the least number of single-character
  insertions, deletions and substitutions, each of cost 1, by its classic recurrence on the
  prefixes of length \<open>i\<close> of \<open>a\<close> and \<open>j\<close> of \<open>b\<close>.
\<close>

fun lev :: "string \<Rightarrow> string \<Rightarrow> nat \<Rightarrow> nat \<Rightarrow> nat" where
  "lev a b 0 j = j"
| "lev a b (Suc i) 0 = Suc i"
| "lev a b (Suc i) (Suc j) =
     min (lev a b i (Suc j) + 1)
         (min (lev a b (Suc i) j + 1) (lev a b i j + (if a ! i \<noteq> b ! j then 1 else 0)))"

definition edit_distance :: "string \<Rightarrow> string \<Rightarrow> nat" where
  "edit_distance a b = lev a b (length a) (length b)"

section \<open>Records, the store and the merger (\<open>services/merger.py\<close>)\<close>

text \<open>
  The values the book records hold (titles and notes are \<open>str\<close>, years \<open>int\<close>, flags \<open>bool\<close>)
  and Python's truth value of each.
\<close>

datatype pyval = PStr string | PInt int | PBool bool | PNone

fun truthy :: "pyval \<Rightarrow> bool" where
  "truthy (PStr s) = (s \<noteq> [])"
| "truthy (PInt n) = (n \<noteq> 0)"
| "truthy (PBool b) = b"
| "truthy PNone = False"

text \<open>\<open>len(v)\<close> is defined on strings only; on the other values it raises \<open>TypeError\<close>.\<close>

fun py_len :: "pyval \<Rightarrow> nat option" where
  "py_len (PStr s) = Some (length s)"
| "py_len _ = None"

datatype error = AttributeError | TypeError

text \<open>
  A \<open>dict\<close> keeps its keys in insertion order: an association list with distinct keys.
  \<open>d[k] = v\<close> overwrites in place or appends.
\<close>

type_synonym pydict = "(string \<times> pyval) list"

fun dict_set :: "pydict \<Rightarrow> string \<Rightarrow> pyval \<Rightarrow> pydict" where
  "dict_set [] k v = [(k, v)]"
| "dict_set ((k', v') # d) k v = (if k' = k then (k, v) # d else (k', v') # dict_set d k v)"

text \<open>
  The dicts live in a store: the source lists and \<open>all_books\<close> hold references (addresses), so
  that a write through one reference is seen through every other.
\<close>

type_synonym addr = nat
type_synonym heap = "addr \<Rightarrow> pydict"

text \<open>
  One round of the loop of \<open>_merge_book_data\<close> on the dict \<open>existing\<close>, for the item
  \<open>(key, value)\<close> of \<open>new\<close>.
\<close>

fun merge_item :: "pydict \<Rightarrow> string \<times> pyval \<Rightarrow> error + pydict" where
  "merge_item existing (key, value) =
     (case map_of existing key of
        None \<Rightarrow> Inr (dict_set existing key value)
      | Some ev \<Rightarrow>
          if \<not> truthy ev then Inr (dict_set existing key value)
          else if key = ''Raw_Info'' \<and> truthy value then
            (case (py_len value, py_len ev) of
               (Some lv, Some le) \<Rightarrow> Inr (if lv > le then dict_set existing key value else existing)
             | _ \<Rightarrow> Inl TypeError)
          else Inr existing)"

fun merge_items :: "pydict \<Rightarrow> (string \<times> pyval) list \<Rightarrow> error + pydict" where
  "merge_items existing [] = Inr existing"
| "merge_items existing (item # items) =
     (case merge_item existing item of
        Inl e \<Rightarrow> Inl e
      | Inr existing' \<Rightarrow> merge_items existing' items)"

text \<open>
  \<open>_merge_book_data(existing, new)\<close> on references: it reads the items of the dict at \<open>new\<close>
  and writes the dict at \<open>existing\<close>.
\<close>

definition merge_book_data :: "heap \<Rightarrow> addr \<Rightarrow> addr \<Rightarrow> error + heap" where
  "merge_book_data h existing new =
     (case merge_items (h existing) (h new) of
        Inl e \<Rightarrow> Inl e
      | Inr d \<Rightarrow> Inr (h(existing := d)))"

text \<open>
  The body of the inner loop of \<open>merge\<close> for one \<open>book\<close>; the state is the store and
  \<open>all_books\<close> (normalized key to reference, in insertion order). \<open>title.lower()\<close> on a value
  that is not a string raises \<open>AttributeError\<close>.
\<close>

definition merge_book ::
  "string set \<Rightarrow> addr \<Rightarrow> heap \<times> (string \<times> addr) list \<Rightarrow> error + heap \<times> (string \<times> addr) list" where
  "merge_book existing_normalized book st =
     (let (h, all_books) = st;
          title = (case map_of (h book) ''Titre_VO'' of None \<Rightarrow> PStr [] | Some v \<Rightarrow> v)
      in if \<not> truthy title then Inr st
         else case title of
           PStr t \<Rightarrow>
             (let key = merger_normalize t in
              if is_existing key existing_normalized then Inr st
              else case map_of all_books key of
                None \<Rightarrow> Inr (h, all_books @ [(key, book)])
              | Some kept \<Rightarrow>
                  (case merge_book_data h kept book of
                     Inl e \<Rightarrow> Inl e
                   | Inr h' \<Rightarrow> Inr (h', all_books)))
         | _ \<Rightarrow> Inl AttributeError)"

fun merge_source ::
  "string set \<Rightarrow> addr list \<Rightarrow> heap \<times> (string \<times> addr) list \<Rightarrow> error + heap \<times> (string \<times> addr) list" where
  "merge_source en [] st = Inr st"
| "merge_source en (book # source) st =
     (case merge_book en book st of
        Inl e \<Rightarrow> Inl e
      | Inr st' \<Rightarrow> merge_source en source st')"

fun merge_sources ::
  "string set \<Rightarrow> addr list list \<Rightarrow> heap \<times> (string \<times> addr) list \<Rightarrow> error + heap \<times> (string \<times> addr) list" where
  "merge_sources en [] st = Inr st"
| "merge_sources en (source # sources) st =
     (case merge_source en source st of
        Inl e \<Rightarrow> Inl e
      | Inr st' \<Rightarrow> merge_sources en sources st')"

text \<open>
  \<open>BookMerger.merge\<close>: it returns the list of references \<open>list(all_books.values())\<close>; the
  store after the call is returned with it. \<open>existing_titles\<close> is \<open>None\<close> or a set of strings and
  is only read.
\<close>

definition merge :: "addr list list \<Rightarrow> string set option \<Rightarrow> heap \<Rightarrow> error + heap \<times> addr list" where
  "merge sources existing_titles0 h =
     (let existing_titles = (case existing_titles0 of None \<Rightarrow> {} | Some s \<Rightarrow> s);
          existing_normalized = merger_normalize ` existing_titles
      in case merge_sources existing_normalized sources (h, []) of
           Inl e \<Rightarrow> Inl e
         | Inr (h', all_books) \<Rightarrow> Inr (h', map snd all_books))"

section \<open>The table extractor (\<open>services/wikipedia.py\<close>)\<close>

text \<open>
  What \<open>_parse_row\<close> reads of a table row through BeautifulSoup: the list
  \<open>row.find_all(["td", "th"])\<close> of its cells in document order, and for each cell its tag, whether
  it carries \<open>scope="row"\<close>, its \<open>get_text(strip=True)\<close>, the text of its first \<open>a\<close>, and the text
  of its first \<open>i\<close> together with the text of the first \<open>a\<close> inside that \<open>i\<close>.
\<close>

datatype tag = Td | Th

record cell =
  cell_tag :: tag
  cell_scope_row :: bool
  cell_text :: string
  cell_link :: "string option"
  cell_italic :: "(string \<times> string option) option"

text \<open>\<open>int(s)\<close> on a string of decimal digits.\<close>

definition digits_value :: "string \<Rightarrow> int" where
  "digits_value s = foldl (\<lambda>acc c. 10 * acc + (int (of_char c) - 48)) 0 s"

text \<open>\<open>\d{4}\<close>\<close>

definition year_re :: regex where
  "year_re = Seqs [Cls isdigit, Cls isdigit, Cls isdigit, Cls isdigit]"

text \<open>
  The year read in the first \<open>td\<close> of the row (\<open>row.find("td")\<close>), 0 when there is no \<open>td\<close> or
  no four digits in it.
\<close>

definition cell_year :: "cell list \<Rightarrow> int" where
  "cell_year cells =
     (case find (\<lambda>c. cell_tag c = Td) cells of
        None \<Rightarrow> 0
      | Some first_td \<Rightarrow>
          (case re_search year_re (cell_text first_td) of
             Some year_match \<Rightarrow> digits_value year_match
           | None \<Rightarrow> 0))"

text \<open>\<open>\[\d+\]\<close>, and \<open>\s*\(novel\)\<close>, \<open>\s*\(novella\)\<close>, \<open>\s*\(collection\)\<close> under \<open>re.IGNORECASE\<close>.\<close>

definition ref_re :: regex where
  "ref_re = Seqs [Chr CHR ''['', Plus (Cls isdigit), Chr CHR '']'']"

definition annotation_re :: "string \<Rightarrow> regex" where
  "annotation_re w = Seqs [Star ws, Chr CHR ''('', LitI w, Chr CHR '')'']"

definition clean_title :: "string \<Rightarrow> string" where
  "clean_title title0 =
     (let title = re_sub ref_re '''' title0;
          title = re_sub (annotation_re ''novel'') '''' title;
          title = re_sub (annotation_re ''novella'') '''' title;
          title = re_sub (annotation_re ''collection'') '''' title
      in strip title)"

text \<open>\<open>p in s\<close> on strings.\<close>

fun starts_with :: "string \<Rightarrow> string \<Rightarrow> bool" where
  "starts_with [] s = True"
| "starts_with (p # ps) [] = False"
| "starts_with (p # ps) (c # cs) = (p = c \<and> starts_with ps cs)"

fun contains :: "string \<Rightarrow> string \<Rightarrow> bool" where
  "contains p [] = (p = [])"
| "contains p (c # cs) = (starts_with p (c # cs) \<or> contains p cs)"

definition publishers :: "string list" where
  "publishers = [''doubleday'', ''viking'', ''signet'', ''scribner'', ''simon'', ''putnam'']"

text \<open>\<open>^[\d\-X]+$\<close>\<close>

definition isbn_re :: regex where
  "isbn_re = Seqs [Bol, Plus (Cls (\<lambda>c. isdigit c \<or> c = CHR ''-'' \<or> c = CHR ''X'')), Eol]"

text \<open>The notes: the first cell from the end whose text is long enough and not a number.\<close>

definition row_notes :: "cell list \<Rightarrow> string" where
  "row_notes cells =
     (case find (\<lambda>c. length (cell_text c) > 15 \<and> \<not> re_match isbn_re (cell_text c)) (rev cells) of
        None \<Rightarrow> []
      | Some c \<Rightarrow> take 200 (cell_text c))"

text \<open>The title cell: the first \<open>th\<close> with \<open>scope="row"\<close>, else the second cell.\<close>

definition row_title_cell :: "cell list \<Rightarrow> cell option" where
  "row_title_cell cells =
     (case find (\<lambda>c. cell_tag c = Th \<and> cell_scope_row c) cells of
        Some c \<Rightarrow> Some c
      | None \<Rightarrow> if length cells > 1 then Some (cells ! 1) else None)"

text \<open>The text of the title: the link inside the italics, else the link, else the italics, else the cell.\<close>

definition title_text :: "cell \<Rightarrow> string" where
  "title_text title_cell =
     (case cell_italic title_cell of
        Some (_, Some t) \<Rightarrow> t
      | _ \<Rightarrow>
        (case cell_link title_cell of
           Some t \<Rightarrow> t
         | None \<Rightarrow>
           (case cell_italic title_cell of
              Some (t, _) \<Rightarrow> t
            | None \<Rightarrow> cell_text title_cell)))"

text \<open>\<open>WikipediaService._parse_row\<close>; \<open>None\<close> is the row that gives no book.\<close>

definition parse_row :: "cell list \<Rightarrow> int \<Rightarrow> pydict option" where
  "parse_row cells previous_year =
     (if length cells < 1 then None
      else
        let year = cell_year cells;
            year = (if year = 0 then previous_year else year);
            year = (if year < 1970 \<or> year > 2030
                    then (if 1970 \<le> previous_year \<and> previous_year \<le> 2030 then previous_year else 0)
                    else year)
        in if year = 0 then None
           else case row_title_cell cells of
             None \<Rightarrow> None
           | Some title_cell \<Rightarrow>
               (let title = clean_title (title_text title_cell) in
                if title = [] \<or> length title < 2 then None
                else if list_ex (\<lambda>pub. contains pub (lower title)) publishers then None
                else
                  let notes = row_notes cells;
                      is_bachman = contains ''bachman'' (lower notes)
                  in Some [(''Titre_VO'', PStr title), (''Annee_VO'', PInt year),
                           (''Raw_Info'', PStr notes), (''Is_Bachman'', PBool is_bachman),
                           (''Is_Duplicate_or_Ignore'', PBool False)]))"

text \<open>\<open>book["Annee_VO"]\<close> of a book that \<open>_parse_row\<close> returned (the key is always there, with an \<open>int\<close>).\<close>

definition annee_vo :: "pydict \<Rightarrow> int" where
  "annee_vo book = (case map_of book ''Annee_VO'' of Some (PInt y) \<Rightarrow> y | _ \<Rightarrow> 0)"

text \<open>
  The loop over the rows in \<open>_parse_section\<close>, carrying \<open>current_year\<close>; the books come out
  in the order of the rows.
\<close>

fun parse_rows :: "cell list list \<Rightarrow> int \<Rightarrow> string \<Rightarrow> pydict list" where
  "parse_rows [] current_year section_id = []"
| "parse_rows (row # rows) current_year section_id =
     (case parse_row row current_year of
        None \<Rightarrow> parse_rows rows current_year section_id
      | Some book \<Rightarrow>
          dict_set (dict_set book ''Source'' (PStr ''Wikipedia'')) ''Section'' (PStr section_id)
            # parse_rows rows (annee_vo book) section_id)"

text \<open>The rows of the table: \<open>table.find_all("tr")[1:]\<close>, parsed from \<open>current_year = 0\<close>.\<close>

definition parse_table :: "cell list list \<Rightarrow> string \<Rightarrow> pydict list" where
  "parse_table trs section_id = parse_rows (drop 1 trs) 0 section_id"

section \<open>What the merger maintains\<close>

text \<open>The key under which \<open>merge\<close> files a record: none when the title is missing, empty or not a string.\<close>

definition title_key :: "pydict \<Rightarrow> string option" where
  "title_key d =
     (case map_of d ''Titre_VO'' of
        Some (PStr t) \<Rightarrow> if t = [] then None else Some (merger_normalize t)
      | _ \<Rightarrow> None)"

text \<open>
  The invariant of the loops of \<open>merge\<close>, relative to the store \<open>h0\<close> at the call: the keys of
  \<open>all_books\<close> are distinct; each kept record still has the title it came with, its key is the
  key of that title and passed the existence check; and every dict that is not a kept record
  is as it was.
\<close>

definition merge_inv :: "heap \<Rightarrow> string set \<Rightarrow> heap \<times> (string \<times> addr) list \<Rightarrow> bool" where
  "merge_inv h0 en st =
     (let (h, all_books) = st in
        distinct (map fst all_books) \<and>
        (\<forall>(k, a) \<in> set all_books.
            title_key (h a) = Some k \<and>
            map_of (h a) ''Titre_VO'' = map_of (h0 a) ''Titre_VO'' \<and>
            \<not> is_existing k en) \<and>
        (\<forall>a. a \<notin> snd ` set all_books \<longrightarrow> h a = h0 a))"

text \<open>The normalized projection of the known titles that \<open>merge\<close> builds first.\<close>

definition known_projection :: "string set option \<Rightarrow> string set" where
  "known_projection existing_titles =
     merger_normalize ` (case existing_titles of None \<Rightarrow> {} | Some s \<Rightarrow> s)"

section \<open>Example stores\<close>

text \<open>Two sources with one record each for \<open>Pet Sematary\<close>; the second has the longer note and the year.\<close>

definition pet_first :: pydict where
  "pet_first = [(''Titre_VO'', PStr ''Pet Sematary''), (''Annee_VO'', PInt 0),
                (''Raw_Info'', PStr ''Novel'')]"

definition pet_second :: pydict where
  "pet_second = [(''Titre_VO'', PStr ''Pet Sematary''), (''Annee_VO'', PInt 1983),
                 (''Raw_Info'', PStr ''Horror novel, Doubleday'')]"

definition pet_merged :: pydict where
  "pet_merged = [(''Titre_VO'', PStr ''Pet Sematary''), (''Annee_VO'', PInt 1983),
                 (''Raw_Info'', PStr ''Horror novel, Doubleday'')]"

definition pet_heap :: heap where
  "pet_heap = (\<lambda>_. [])(0 := pet_first, 1 := pet_second)"

text \<open>A record for \<open>The Stand\<close>, a title of the catalogue.\<close>

definition stand_heap :: heap where
  "stand_heap = (\<lambda>_. [])(0 := [(''Titre_VO'', PStr ''The Stand''), (''Annee_VO'', PInt 1978)])"

text \<open>The known title \<open>Le Fl\'eau\<close> (its accented letter is U+00E9) and two candidates.\<close>

definition le_fleau :: string where
  "le_fleau = ''Le Fl'' @ [CHR 0xE9] @ ''au''"

definition fleau_plain_heap :: heap where
  "fleau_plain_heap = (\<lambda>_. [])(0 := [(''Titre_VO'', PStr ''Le Fleau: Complete & Uncut Edition'')])"

definition fleau_accent_heap :: heap where
  "fleau_accent_heap =
     (\<lambda>_. [])(0 := [(''Titre_VO'', PStr (le_fleau @ '': Complete & Uncut Edition''))])"

text \<open>Rows of a bibliography table: a year cell, a title cell, a notes cell.\<close>

definition table_row :: "string \<Rightarrow> string \<Rightarrow> string \<Rightarrow> cell list" where
  "table_row year title notes =
     [\<lparr>cell_tag = Td, cell_scope_row = False, cell_text = year, cell_link = None, cell_italic = None\<rparr>,
      \<lparr>cell_tag = Th, cell_scope_row = True, cell_text = title, cell_link = None, cell_italic = None\<rparr>,
      \<lparr>cell_tag = Td, cell_scope_row = False, cell_text = notes, cell_link = None, cell_italic = None\<rparr>]"

definition wiki_book :: "string \<Rightarrow> int \<Rightarrow> string \<Rightarrow> string \<Rightarrow> pydict" where
  "wiki_book title year notes section_id =
     [(''Titre_VO'', PStr title), (''Annee_VO'', PInt year), (''Raw_Info'', PStr notes),
      (''Is_Bachman'', PBool False), (''Is_Duplicate_or_Ignore'', PBool False),
      (''Source'', PStr ''Wikipedia''), (''Section'', PStr section_id)]"

section \<open>Notions used in the proofs about the patterns\<close>

text \<open>Patterns without \<open>^\<close>, and patterns without \<open>^\<close>, \<open>$\<close> and \<open>.\<close>.\<close>

fun no_bol :: "regex \<Rightarrow> bool" where
  "no_bol Bol = False"
| "no_bol (Seq r1 r2) = (no_bol r1 \<and> no_bol r2)"
| "no_bol (Alt r1 r2) = (no_bol r1 \<and> no_bol r2)"
| "no_bol (Star r) = no_bol r"
| "no_bol _ = True"

fun simple :: "regex \<Rightarrow> bool" where
  "simple Bol = False"
| "simple Eol = False"
| "simple Dot = False"
| "simple (Seq r1 r2) = (simple r1 \<and> simple r2)"
| "simple (Alt r1 r2) = (simple r1 \<and> simple r2)"
| "simple (Star r) = simple r"
| "simple _ = True"

text \<open>The pattern matches at no position of the text.\<close>

definition unmatched :: "regex \<Rightarrow> string \<Rightarrow> bool" where
  "unmatched r s = (\<forall>k. rmatch r False (drop k s) = [])"

text \<open>
  The shape of the edition patterns: a core without anchors that does not match the empty
  text, followed by \<open>.*$\<close>.
\<close>

definition edition_like :: "regex \<Rightarrow> bool" where
  "edition_like r =
     (\<exists>core. r = Seqs (core @ to_end) \<and> list_all simple core \<and> rmatch (Seqs core) False [] = [])"

text \<open>What \<open>re.sub(r"\s+", " ", s)\<close> computes: each run of whitespace becomes one space.\<close>

function collapse :: "string \<Rightarrow> string" where
  "collapse [] = []"
| "collapse (c # cs) =
     (if isspace c then CHR '' '' # collapse (dropWhile isspace cs) else c # collapse cs)"
  by pat_completeness auto
termination
  by (relation "measure length") (auto simp: le_imp_less_Suc length_dropWhile_le)

text \<open>A text in which every whitespace character is a single space followed by no whitespace.\<close>

fun tidy :: "string \<Rightarrow> bool" where
  "tidy [] = True"
| "tidy [c] = (isspace c \<longrightarrow> c = CHR '' '')"
| "tidy (c # d # s) = ((isspace c \<longrightarrow> c = CHR '' '' \<and> \<not> isspace d) \<and> tidy (d # s))"

text \<open>The length of the note of a record, 0 when it has no note or the note is not a string.\<close>

definition note_len :: "pydict \<Rightarrow> nat" where
  "note_len d = (case map_of d ''Raw_Info'' of Some (PStr s) \<Rightarrow> length s | _ \<Rightarrow> 0)"

definition val_len :: "pyval \<Rightarrow> nat" where
  "val_len v = (case v of PStr s \<Rightarrow> length s | _ \<Rightarrow> 0)"

text \<open>
  What the loops of \<open>merge\<close> maintain beyond \<open>merge_inv\<close>, once the references in \<open>processed\<close>
  have been handled: the dicts have distinct keys; the key of every handled candidate that
  passed the existence check is in \<open>all_books\<close>; each kept record has been handled; and its note is a note
  of a handled candidate with its key and is at least as long as the note of every one of them.
\<close>

definition merge_inv2 ::
  "heap \<Rightarrow> string set \<Rightarrow> addr list \<Rightarrow> heap \<times> (string \<times> addr) list \<Rightarrow> bool" where
  "merge_inv2 h0 en processed st =
     (let (h, all_books) = st in
        merge_inv h0 en st \<and>
        (\<forall>a. distinct (map fst (h a))) \<and>
        (\<forall>a \<in> set processed. \<forall>k. title_key (h0 a) = Some k \<and> \<not> is_existing k en
            \<longrightarrow> k \<in> fst ` set all_books) \<and>
        (\<forall>(k, e) \<in> set all_books.
            e \<in> set processed \<and>
            (\<forall>a \<in> set processed. title_key (h0 a) = Some k \<longrightarrow> note_len (h0 a) \<le> note_len (h e)) \<and>
            (\<exists>a \<in> set processed. title_key (h0 a) = Some k \<and>
                map_of (h e) ''Raw_Info'' = map_of (h0 a) ''Raw_Info'')))"

text \<open>
  What the substitution of \<open>^(the|a|an)\s+\<close> by the empty string computes. \<open>has_article\<close>:
  the text starts with one of the articles followed by a whitespace character.
  \<open>drop_article\<close>: the first such article and all the whitespace after it are removed; a text
  that starts with none is left as it is.
\<close>

definition article_at :: "string \<Rightarrow> string \<Rightarrow> bool" where
  "article_at art s =
     (starts_with art s \<and> (case drop (length art) s of [] \<Rightarrow> False | c # cs \<Rightarrow> isspace c))"

definition has_article :: "string list \<Rightarrow> string \<Rightarrow> bool" where
  "has_article arts s = list_ex (\<lambda>art. article_at art s) arts"

fun drop_article :: "string list \<Rightarrow> string \<Rightarrow> string" where
  "drop_article [] s = s"
| "drop_article (art # arts) s =
     (if article_at art s then dropWhile isspace (drop (length art) s) else drop_article arts s)"

text \<open>The clean-up that ends both normalizers, on the characterised substitutions.\<close>

definition cleanup :: "string \<Rightarrow> string" where
  "cleanup s = strip (collapse (filter (\<lambda>c. isword c \<or> isspace c) s))"

section \<open>Properties\<close>

subsection \<open>Reflexivity of the similarity matcher\<close>

lemma is_similar_title_empty: "\<not> is_similar_title [] b thr" "\<not> is_similar_title a [] thr"
  by (simp_all add: is_similar_title_def)

text \<open>
  C7, as stated: \<open>is_similar_title(s, s)\<close> is true for every string \<open>s\<close>. It fails on the empty
  string, which the first guard of the function rejects.
\<close>

theorem C7_counterexample: "\<not> is_similar_title [] [] default_threshold"
  by (simp add: is_similar_title_def)

text \<open>
  C7, amended: for every non-empty string \<open>s\<close>, \<open>is_similar_title(s, s)\<close> at the default
  threshold is true.
\<close>

theorem C7_reflexive_nonempty: "s \<noteq> [] \<Longrightarrow> is_similar_title s s default_threshold"
  by (simp add: is_similar_title_def)

theorem C7_reflexive_nonempty_witness:
  "''it'' \<noteq> [] \<and> is_similar_title ''it'' ''it'' default_threshold"
  using C7_reflexive_nonempty [of "''it''"] by simp

subsection \<open>The invariant of the merger\<close>


lemma is_existing_three_tier:
  "is_existing k E \<longleftrightarrow>
     k \<in> E \<or> extract_base_title k \<in> E \<or>
     (\<exists>e \<in> E. extract_base_title k = extract_base_title e \<and> length (extract_base_title k) > 3)"
  by (auto simp: is_existing_def Let_def)

lemma map_of_dict_set: "map_of (dict_set d k v) = (map_of d)(k \<mapsto> v)"
  by (induction d k v rule: dict_set.induct) auto

lemma merge_item_keeps:
  "merge_item d (k, v) = Inr d' \<Longrightarrow> map_of d f = Some ev \<Longrightarrow> truthy ev \<Longrightarrow> f \<noteq> ''Raw_Info''
   \<Longrightarrow> map_of d' f = Some ev"
  by (auto simp: map_of_dict_set split: option.splits if_splits prod.splits)

lemma merge_items_keeps:
  "merge_items d items = Inr d' \<Longrightarrow> map_of d f = Some ev \<Longrightarrow> truthy ev \<Longrightarrow> f \<noteq> ''Raw_Info''
   \<Longrightarrow> map_of d' f = Some ev"
proof (induction items arbitrary: d)
  case Nil
  then show ?case by simp
next
  case (Cons item items)
  obtain k v where item: "item = (k, v)" by (cases item)
  from Cons.prems(1) obtain d1 where s1: "merge_item d (k, v) = Inr d1"
    and s2: "merge_items d1 items = Inr d'"
    by (auto simp: item split: sum.splits)
  from merge_item_keeps [OF s1 Cons.prems(2,3,4)] have "map_of d1 f = Some ev" .
  from Cons.IH [OF s2 this Cons.prems(3,4)] show ?case .
qed

lemma title_key_truthy:
  "title_key d = Some k \<Longrightarrow> \<exists>t. map_of d ''Titre_VO'' = Some (PStr t) \<and> t \<noteq> [] \<and> merger_normalize t = k"
  by (auto simp: title_key_def split: option.splits pyval.splits if_splits)

lemma merge_items_title_key:
  assumes "merge_items d items = Inr d'" "title_key d = Some k"
  shows "title_key d' = Some k \<and> map_of d' ''Titre_VO'' = map_of d ''Titre_VO''"
proof -
  from title_key_truthy [OF assms(2)] obtain t where
    t: "map_of d ''Titre_VO'' = Some (PStr t)" "t \<noteq> []" "merger_normalize t = k" by blast
  have "map_of d' ''Titre_VO'' = Some (PStr t)"
    by (rule merge_items_keeps [OF assms(1) t(1)]) (use t in auto)
  with t show ?thesis by (simp add: title_key_def)
qed

lemma merge_book_inv:
  assumes "merge_book en book st = Inr st'" "merge_inv h0 en st"
  shows "merge_inv h0 en st'"
proof -
  obtain h ab where st: "st = (h, ab)" by (cases st)
  from assms(2) have d: "distinct (map fst ab)"
    and kept: "\<And>k a. (k, a) \<in> set ab \<Longrightarrow> title_key (h a) = Some k \<and>
            map_of (h a) ''Titre_VO'' = map_of (h0 a) ''Titre_VO'' \<and> \<not> is_existing k en"
    and frame: "\<And>a. a \<notin> snd ` set ab \<Longrightarrow> h a = h0 a"
    by (auto simp: merge_inv_def st)
  have same_title: "map_of (h book) ''Titre_VO'' = map_of (h0 book) ''Titre_VO''"
  proof (cases "book \<in> snd ` set ab")
    case True
    then obtain k where "(k, book) \<in> set ab" by force
    with kept show ?thesis by blast
  next
    case False
    with frame show ?thesis by simp
  qed
  show ?thesis
  proof (cases "title_key (h book)")
    case None
    then have "st' = st \<or> False" using assms(1)
      by (auto simp: merge_book_def st title_key_def Let_def split: option.splits pyval.splits if_splits)
    with assms(2) show ?thesis by simp
  next
    case (Some key)
    from title_key_truthy [OF Some] obtain t where
      t: "map_of (h book) ''Titre_VO'' = Some (PStr t)" "t \<noteq> []" "merger_normalize t = key" by blast
    show ?thesis
    proof (cases "is_existing key en")
      case True
      with t assms(1) have "st' = st" by (simp add: merge_book_def st Let_def)
      with assms(2) show ?thesis by simp
    next
      case nex: False
      show ?thesis
      proof (cases "map_of ab key")
        case None
        with nex t assms(1) have st': "st' = (h, ab @ [(key, book)])"
          by (simp add: merge_book_def st Let_def)
        from None have "key \<notin> fst ` set ab" by (simp add: map_of_eq_None_iff)
        with d have "distinct (map fst (ab @ [(key, book)]))" by simp
        moreover have "title_key (h book) = Some key" by (rule Some)
        ultimately show ?thesis using kept frame same_title nex
          by (auto simp: merge_inv_def st')
      next
        case (Some keptaddr)
        then have mem: "(key, keptaddr) \<in> set ab" by (rule map_of_SomeD)
        from Some nex t assms(1) obtain dnew where
          mi: "merge_items (h keptaddr) (h book) = Inr dnew" and
          st': "st' = (h(keptaddr := dnew), ab)"
          by (auto simp: merge_book_def merge_book_data_def st Let_def split: sum.splits)
        from kept [OF mem] have tk: "title_key (h keptaddr) = Some key" by simp
        from merge_items_title_key [OF mi tk]
        have new: "title_key dnew = Some key" "map_of dnew ''Titre_VO'' = map_of (h keptaddr) ''Titre_VO''"
          by simp_all
        have "\<And>k a. (k, a) \<in> set ab \<Longrightarrow> title_key ((h(keptaddr := dnew)) a) = Some k \<and>
            map_of ((h(keptaddr := dnew)) a) ''Titre_VO'' = map_of (h0 a) ''Titre_VO'' \<and> \<not> is_existing k en"
        proof -
          fix k a assume ka: "(k, a) \<in> set ab"
          show "title_key ((h(keptaddr := dnew)) a) = Some k \<and>
            map_of ((h(keptaddr := dnew)) a) ''Titre_VO'' = map_of (h0 a) ''Titre_VO'' \<and> \<not> is_existing k en"
          proof (cases "a = keptaddr")
            case True
            with kept [OF ka] tk have "k = key" by simp
            with True new kept [OF mem] show ?thesis by simp
          next
            case False
            with kept [OF ka] show ?thesis by simp
          qed
        qed
        moreover have "\<And>a. a \<notin> snd ` set ab \<Longrightarrow> (h(keptaddr := dnew)) a = h0 a"
          using frame mem by force
        ultimately show ?thesis unfolding merge_inv_def st' Let_def prod.case using d by blast
      qed
    qed
  qed
qed

lemma merge_source_inv:
  "merge_source en source st = Inr st' \<Longrightarrow> merge_inv h0 en st \<Longrightarrow> merge_inv h0 en st'"
proof (induction source arbitrary: st)
  case Nil
  then show ?case by simp
next
  case (Cons book source)
  from Cons.prems(1) obtain st1 where a: "merge_book en book st = Inr st1"
    and b: "merge_source en source st1 = Inr st'" by (auto split: sum.splits)
  from Cons.IH [OF b merge_book_inv [OF a Cons.prems(2)]] show ?case .
qed

lemma merge_sources_inv:
  "merge_sources en sources st = Inr st' \<Longrightarrow> merge_inv h0 en st \<Longrightarrow> merge_inv h0 en st'"
proof (induction sources arbitrary: st)
  case Nil
  then show ?case by simp
next
  case (Cons source sources)
  from Cons.prems(1) obtain st1 where a: "merge_source en source st = Inr st1"
    and b: "merge_sources en sources st1 = Inr st'" by (auto split: sum.splits)
  from Cons.IH [OF b merge_source_inv [OF a Cons.prems(2)]] show ?case .
qed

lemma merge_inv_init: "merge_inv h en (h, [])"
  by (simp add: merge_inv_def)

lemma merge_result:
  assumes "merge sources et h = Inr (h', res)"
  shows "\<exists>ab. res = map snd ab \<and> merge_inv h (known_projection et) (h', ab)"
proof -
  from assms obtain ab where
    ms: "merge_sources (known_projection et) sources (h, []) = Inr (h', ab)" and res: "res = map snd ab"
    by (auto simp: merge_def known_projection_def Let_def split: sum.splits prod.splits)
  from merge_sources_inv [OF ms merge_inv_init] res show ?thesis by blast
qed

subsection \<open>Worked examples\<close>


lemma norm_pet: "merger_normalize ''Pet Sematary'' = ''pet sematary''"
  by code_simp
lemma norm_stand: "merger_normalize ''The Stand'' = ''stand''"
  by code_simp
lemma norm_le_fleau: "merger_normalize le_fleau = ''le fl'' @ [CHR 0xE9] @ ''au''"
  by code_simp
lemma norm_fleau_plain:
  "merger_normalize ''Le Fleau: Complete & Uncut Edition'' = ''le fleau complete uncut edition''"
  by code_simp
lemma norm_fleau_accent:
  "merger_normalize (le_fleau @ '': Complete & Uncut Edition'')
     = ''le fl'' @ [CHR 0xE9] @ ''au complete uncut edition''"
  by code_simp
lemma base_fleau_plain: "extract_base_title ''le fleau complete uncut edition'' = ''le fleau''"
  by code_simp
lemma base_fleau_accent:
  "extract_base_title (''le fl'' @ [CHR 0xE9] @ ''au complete uncut edition'') = ''le fl'' @ [CHR 0xE9] @ ''au''"
  by code_simp
lemma base_le_fleau: "extract_base_title (''le fl'' @ [CHR 0xE9] @ ''au'') = ''le fl'' @ [CHR 0xE9] @ ''au''"
  by code_simp

lemma proj_fleau: "known_projection (Some {le_fleau}) = {''le fl'' @ [CHR 0xE9] @ ''au''}"
  by (simp add: known_projection_def norm_le_fleau)

lemma ex_plain: "\<not> is_existing ''le fleau complete uncut edition'' (known_projection (Some {le_fleau}))"
  unfolding proj_fleau is_existing_def Let_def base_fleau_plain
  by (simp add: base_le_fleau [simplified])

lemma ex_accent: "is_existing (''le fl'' @ [CHR 0xE9] @ ''au complete uncut edition'') (known_projection (Some {le_fleau}))"
  unfolding proj_fleau is_existing_def Let_def base_fleau_accent
  by simp

lemma merge_plain: "merge [[0]] (Some {le_fleau}) fleau_plain_heap = Inr (fleau_plain_heap, [0])"
  using ex_plain
  by (simp add: merge_def merge_book_def Let_def known_projection_def fleau_plain_heap_def norm_fleau_plain)

lemma merge_accent: "merge [[0]] (Some {le_fleau}) fleau_accent_heap = Inr (fleau_accent_heap, [])"
  using ex_accent
  by (simp add: merge_def merge_book_def Let_def known_projection_def fleau_accent_heap_def norm_fleau_accent [simplified])

lemma merge_stand: "merge [[0]] (Some {''The Stand''}) stand_heap = Inr (stand_heap, [])"
  by (simp add: merge_def merge_book_def Let_def stand_heap_def norm_stand is_existing_def)

lemma merge_pet: "merge [[0], [1]] None pet_heap = Inr (pet_heap(0 := pet_merged), [0])"
  by (simp add: merge_def merge_book_def merge_book_data_def Let_def pet_heap_def norm_pet is_existing_def
      pet_first_def pet_second_def pet_merged_def)

lemma pet_changed: "(pet_heap(0 := pet_merged)) 0 \<noteq> pet_heap 0"
  by (simp add: pet_heap_def pet_merged_def pet_first_def)

subsection \<open>The frame of \<open>merge\<close>\<close>

text \<open>
  C1, as stated: after \<open>merge\<close> every dict of every source list is unchanged. It fails on two
  sources that each hold a record for \<open>Pet Sematary\<close>: \<open>all_books[key] = book\<close> keeps a
  reference to the first one, and \<open>_merge_book_data\<close> then writes the year and the longer note
  of the second into it.
\<close>

theorem C1_counterexample:
  "merge [[0], [1]] None pet_heap = Inr (pet_heap(0 := pet_merged), [0]) \<and>
   (pet_heap(0 := pet_merged)) 0 \<noteq> pet_heap 0"
  using merge_pet pet_changed by simp

text \<open>
  C1, amended: \<open>merge\<close> only reads \<open>existing_titles\<close> (the model hands it over as a value), and
  it leaves unchanged every dict that is not one of the records it returns; a returned record,
  the first one seen for its key, keeps its title while the fields of later records with the
  same key are folded into it in place.
\<close>

theorem C1_frame:
  assumes "merge sources existing_titles h = Inr (h', res)"
  shows "(a \<notin> set res \<longrightarrow> h' a = h a) \<and> map_of (h' a) ''Titre_VO'' = map_of (h a) ''Titre_VO''"
proof -
  from merge_result [OF assms] obtain ab where res: "res = map snd ab"
    and inv: "merge_inv h (known_projection existing_titles) (h', ab)" by blast
  from inv have kept: "\<And>k b. (k, b) \<in> set ab \<Longrightarrow> map_of (h' b) ''Titre_VO'' = map_of (h b) ''Titre_VO''"
    and frame: "\<And>b. b \<notin> snd ` set ab \<Longrightarrow> h' b = h b"
    by (auto simp: merge_inv_def)
  have "map_of (h' a) ''Titre_VO'' = map_of (h a) ''Titre_VO''"
  proof (cases "a \<in> snd ` set ab")
    case True
    then obtain k where "(k, a) \<in> set ab" by force
    with kept show ?thesis by blast
  next
    case False
    with frame show ?thesis by simp
  qed
  with frame res show ?thesis by simp
qed

theorem C1_frame_witness:
  "merge [[0], [1]] None pet_heap = Inr (pet_heap(0 := pet_merged), [0]) \<and>
   1 \<notin> set [0::nat] \<and> (pet_heap(0 := pet_merged)) 1 = pet_heap 1 \<and>
   map_of ((pet_heap(0 := pet_merged)) 0) ''Titre_VO'' = map_of (pet_heap 0) ''Titre_VO''"
  using C1_frame [OF merge_pet, of 1] C1_frame [OF merge_pet, of 0] merge_pet by simp

subsection \<open>Exclusion of the known titles\<close>

text \<open>
  C2: the existence check is the three-tier rule (the key is a known key; or its
  edition-stripped base is a known key; or its base is the base of a known key and is longer
  than 3 characters), and a candidate of the sources whose key passes that check against the
  normalized projection of the known titles is not in the list that \<open>merge\<close> returns.
\<close>

theorem C2_three_tier_exclusion:
  assumes "merge sources existing_titles h = Inr (h', res)"
    and "map_of (h a) ''Titre_VO'' = Some (PStr t)"
    and "key = merger_normalize t"
    and "E = known_projection existing_titles"
  shows "(is_existing key E \<longleftrightarrow>
            key \<in> E \<or> extract_base_title key \<in> E \<or>
            (\<exists>e \<in> E. extract_base_title key = extract_base_title e \<and>
                       length (extract_base_title key) > 3)) \<and>
         (is_existing key E \<longrightarrow> a \<notin> set res)"
proof -
  from merge_result [OF assms(1)] obtain ab where res: "res = map snd ab"
    and inv: "merge_inv h E (h', ab)" unfolding assms(4) by blast
  have "a \<notin> set res" if ex: "is_existing key E"
  proof
    assume "a \<in> set res"
    then obtain k where ka: "(k, a) \<in> set ab" unfolding res by force
    with inv have tk: "title_key (h' a) = Some k"
      and same: "map_of (h' a) ''Titre_VO'' = map_of (h a) ''Titre_VO''"
      and nex: "\<not> is_existing k E"
      by (auto simp: merge_inv_def)
    from title_key_truthy [OF tk] same assms(2,3) have "k = key" by auto
    with nex ex show False by simp
  qed
  with is_existing_three_tier [of key E] show ?thesis by blast
qed

theorem C2_three_tier_exclusion_witness:
  "merge [[0]] (Some {''The Stand''}) stand_heap = Inr (stand_heap, []) \<and>
   map_of (stand_heap 0) ''Titre_VO'' = Some (PStr ''The Stand'') \<and>
   is_existing (merger_normalize ''The Stand'') (known_projection (Some {''The Stand''})) \<and>
   0 \<notin> set ([] :: nat list)"
proof -
  have t: "map_of (stand_heap 0) ''Titre_VO'' = Some (PStr ''The Stand'')"
    by (simp add: stand_heap_def)
  have ex: "is_existing (merger_normalize ''The Stand'') (known_projection (Some {''The Stand''}))"
    by (simp add: is_existing_def known_projection_def)
  from C2_three_tier_exclusion [OF merge_stand t refl refl] ex merge_stand t show ?thesis by simp
qed

text \<open>
  C3, as stated: with the known titles \<open>{"Le Fl\'eau"}\<close> and a candidate whose title normalizes
  to \<open>le fleau complete uncut edition\<close>, the existence check is true and \<open>merge\<close> drops the
  candidate. It fails: normalization keeps the accented letter of the known title, the base
  \<open>le fleau\<close> of the candidate differs from it, and \<open>merge\<close> returns the candidate.
\<close>

theorem C3_counterexample:
  "merger_normalize ''Le Fleau: Complete & Uncut Edition'' = ''le fleau complete uncut edition'' \<and>
   \<not> is_existing ''le fleau complete uncut edition'' (known_projection (Some {le_fleau})) \<and>
   merge [[0]] (Some {le_fleau}) fleau_plain_heap = Inr (fleau_plain_heap, [0])"
  using norm_fleau_plain ex_plain merge_plain by simp

text \<open>
  C3, amended: with the known titles \<open>{"Le Fl\'eau"}\<close> and a candidate whose title normalizes to
  that title's own key followed by \<open>complete uncut edition\<close> (accent kept), the key is not a
  known key, its edition-stripped base is (the base-title tier), the existence check is true
  and \<open>merge\<close> returns a list without the candidate.
\<close>

theorem C3_base_title_tier:
  "merger_normalize (le_fleau @ '': Complete & Uncut Edition'')
     = ''le fl'' @ [CHR 0xE9] @ ''au complete uncut edition'' \<and>
   ''le fl'' @ [CHR 0xE9] @ ''au complete uncut edition'' \<notin> known_projection (Some {le_fleau}) \<and>
   extract_base_title (''le fl'' @ [CHR 0xE9] @ ''au complete uncut edition'')
     \<in> known_projection (Some {le_fleau}) \<and>
   is_existing (''le fl'' @ [CHR 0xE9] @ ''au complete uncut edition'')
     (known_projection (Some {le_fleau})) \<and>
   merge [[0]] (Some {le_fleau}) fleau_accent_heap = Inr (fleau_accent_heap, [])"
  using norm_fleau_accent ex_accent merge_accent
  by (simp add: proj_fleau base_fleau_accent [simplified])

subsection \<open>Year resolution in the table extractor\<close>

lemma annee_vo_dict_set: "k \<noteq> ''Annee_VO'' \<Longrightarrow> annee_vo (dict_set d k v) = annee_vo d"
  by (simp add: annee_vo_def map_of_dict_set)

lemma parse_row_year:
  assumes "parse_row cells cy = Some book"
  shows "annee_vo book =
           (if 1970 \<le> cell_year cells \<and> cell_year cells \<le> 2030 then cell_year cells else cy)"
    and "1970 \<le> annee_vo book \<and> annee_vo book \<le> 2030"
  using assms
  by (auto simp: parse_row_def Let_def annee_vo_def split: if_splits option.splits)

lemma parse_row_unresolved:
  assumes "cell_year cells < 1970 \<or> cell_year cells > 2030" "cy < 1970 \<or> cy > 2030"
  shows "parse_row cells cy = None"
  using assms by (auto simp: parse_row_def Let_def)

lemma rows_1986_2199:
  "parse_rows [table_row ''1986'' ''It'' ''Novel'', table_row ''2199'' ''Misery'' ''Novel''] 0 ''Novels''
     = [wiki_book ''It'' 1986 [] ''Novels'', wiki_book ''Misery'' 1986 [] ''Novels'']"
  by code_simp

lemma rows_1977_blank:
  "parse_table [[], table_row ''1977'' ''Rage'' ''Novel'', table_row [] ''The Long Walk'' ''Novel'']
     ''Novels''
     = [wiki_book ''Rage'' 1977 [] ''Novels'', wiki_book ''The Long Walk'' 1977 [] ''Novels'']"
  by code_simp

lemma cell_year_2199: "cell_year (table_row ''2199'' ''Misery'' ''Novel'') = 2199"
  by code_simp

lemma parse_row_2199_after_1986:
  "parse_row (table_row ''2199'' ''Misery'' ''Novel'') 1986 =
     Some [(''Titre_VO'', PStr ''Misery''), (''Annee_VO'', PInt 1986), (''Raw_Info'', PStr []),
           (''Is_Bachman'', PBool False), (''Is_Duplicate_or_Ignore'', PBool False)]"
  by code_simp

text \<open>
  C9: when \<open>_parse_row\<close> gives a book, its year is the year read in the first data cell if that
  year lies in [1970, 2030], and \<open>current_year\<close> otherwise (no four digits read, or a year out of
  range), and it lies in [1970, 2030]; when neither the year read nor \<open>current_year\<close> lies in
  [1970, 2030] the resolved year is 0 and the row gives no book; a row that gives no book
  leaves \<open>current_year\<close> as it is, and a row that gives a book hands its year to the next row.
  A row reading 2199 after a row of 1986 gets 1986, and a row with a blank year cell after a
  row of 1977 gets 1977.
\<close>

theorem C9_year_resolution:
  "(parse_row cells current_year = Some book \<longrightarrow>
      annee_vo book =
        (if 1970 \<le> cell_year cells \<and> cell_year cells \<le> 2030 then cell_year cells else current_year) \<and>
      1970 \<le> annee_vo book \<and> annee_vo book \<le> 2030) \<and>
   ((cell_year cells < 1970 \<or> 2030 < cell_year cells) \<and> (current_year < 1970 \<or> 2030 < current_year)
      \<longrightarrow> parse_row cells current_year = None) \<and>
   parse_rows (cells # rows) current_year section_id =
     (case parse_row cells current_year of
        None \<Rightarrow> parse_rows rows current_year section_id
      | Some b \<Rightarrow>
          dict_set (dict_set b ''Source'' (PStr ''Wikipedia'')) ''Section'' (PStr section_id)
            # parse_rows rows (annee_vo b) section_id) \<and>
   parse_rows [table_row ''1986'' ''It'' ''Novel'', table_row ''2199'' ''Misery'' ''Novel''] 0 ''Novels''
     = [wiki_book ''It'' 1986 [] ''Novels'', wiki_book ''Misery'' 1986 [] ''Novels''] \<and>
   parse_table [[], table_row ''1977'' ''Rage'' ''Novel'', table_row [] ''The Long Walk'' ''Novel'']
     ''Novels''
     = [wiki_book ''Rage'' 1977 [] ''Novels'', wiki_book ''The Long Walk'' 1977 [] ''Novels'']"
  using parse_row_year [of cells current_year book] parse_row_unresolved [of cells current_year]
    rows_1986_2199 rows_1977_blank
  by simp

theorem C9_year_resolution_witness:
  "parse_row (table_row ''2199'' ''Misery'' ''Novel'') 1986 =
     Some [(''Titre_VO'', PStr ''Misery''), (''Annee_VO'', PInt 1986), (''Raw_Info'', PStr []),
           (''Is_Bachman'', PBool False), (''Is_Duplicate_or_Ignore'', PBool False)] \<and>
   cell_year (table_row ''2199'' ''Misery'' ''Novel'') = 2199 \<and>
   annee_vo [(''Titre_VO'', PStr ''Misery''), (''Annee_VO'', PInt 1986), (''Raw_Info'', PStr []),
           (''Is_Bachman'', PBool False), (''Is_Duplicate_or_Ignore'', PBool False)] = 1986 \<and>
   parse_row (table_row ''2199'' ''Misery'' ''Novel'') 0 = None"
  using C9_year_resolution [of "table_row ''2199'' ''Misery'' ''Novel''" 1986
      "[(''Titre_VO'', PStr ''Misery''), (''Annee_VO'', PInt 1986), (''Raw_Info'', PStr []),
           (''Is_Bachman'', PBool False), (''Is_Duplicate_or_Ignore'', PBool False)]"]
    C9_year_resolution [of "table_row ''2199'' ''Misery'' ''Novel''" 0]
    parse_row_2199_after_1986 cell_year_2199
  by simp

subsection \<open>The distance of \<open>levenshtein_distance\<close> is the edit distance\<close>


lemma lev_zero_right: "lev a b i 0 = i"
  by (cases i) simp_all

lemma lev_sym: "lev a b i j = lev b a j i"
proof (induction a b i j rule: lev.induct)
  case (1 a b j)
  then show ?case by (simp add: lev_zero_right)
next
  case (2 a b i)
  then show ?case by simp
next
  case (3 a b i j)
  then show ?case by (simp add: min.commute min.left_commute eq_commute)
qed

lemma inner_loop_row:
  assumes "prev_row = map (lev s1 s2 i) [0..<length s2 + 1]"
  shows "curr_row = map (lev s1 s2 (Suc i)) [0..<j + 1] \<Longrightarrow> rest = drop j s2 \<Longrightarrow> j \<le> length s2
    \<Longrightarrow> inner_loop (s1 ! i) rest prev_row curr_row j = map (lev s1 s2 (Suc i)) [0..<length s2 + 1]"
proof (induction rest arbitrary: curr_row j)
  case Nil
  then have "j = length s2" by simp
  with Nil show ?case by simp
next
  case (Cons c2 rest)
  from Cons.prems(2) have jlt: "j < length s2"
    by (metis drop_all list.distinct(1) not_le)
  from Cons.prems(2) have c2: "c2 = s2 ! j" and rest: "rest = drop (Suc j) s2"
    using jlt by (simp_all add: Cons_nth_drop_Suc [symmetric])
  have p1: "prev_row ! (j + 1) = lev s1 s2 i (Suc j)"
    unfolding assms using jlt by (simp del: upt_Suc)
  have p0: "prev_row ! j = lev s1 s2 i j"
    unfolding assms using jlt by (simp del: upt_Suc)
  have c0: "curr_row ! j = lev s1 s2 (Suc i) j"
    unfolding Cons.prems(1) by (simp del: upt_Suc lev.simps)
  let ?new = "min (prev_row ! (j + 1) + 1)
                (min (curr_row ! j + 1) (prev_row ! j + (if s1 ! i \<noteq> c2 then 1 else 0)))"
  have new: "?new = lev s1 s2 (Suc i) (Suc j)"
    unfolding p1 p0 c0 c2 by simp
  have curr': "curr_row @ [?new] = map (lev s1 s2 (Suc i)) [0..<(j + 1) + 1]"
    by (simp only: new) (simp add: Cons.prems(1) del: lev.simps)
  have "inner_loop (s1 ! i) (c2 # rest) prev_row curr_row j
          = inner_loop (s1 ! i) rest prev_row (curr_row @ [?new]) (j + 1)"
    by (simp add: Let_def)
  also have "\<dots> = map (lev s1 s2 (Suc i)) [0..<length s2 + 1]"
    by (rule Cons.IH [OF curr']) (use rest jlt in simp_all)
  finally show ?case .
qed

lemma outer_loop_row:
  "prev_row = map (lev s1 s2 i) [0..<length s2 + 1] \<Longrightarrow> rest = drop i s1 \<Longrightarrow> i \<le> length s1
    \<Longrightarrow> outer_loop rest s2 prev_row i = map (lev s1 s2 (length s1)) [0..<length s2 + 1]"
proof (induction rest arbitrary: prev_row i)
  case Nil
  then have "i = length s1" by simp
  with Nil show ?case by simp
next
  case (Cons c1 rest)
  from Cons.prems(2) have ilt: "i < length s1"
    by (metis drop_all list.distinct(1) not_le)
  from Cons.prems(2) have c1: "c1 = s1 ! i" and rest: "rest = drop (Suc i) s1"
    using ilt by (simp_all add: Cons_nth_drop_Suc [symmetric])
  have start: "[i + 1] = map (lev s1 s2 (Suc i)) [0..<0 + 1]"
    by (simp add: lev_zero_right del: lev.simps)
  have row: "inner_loop c1 s2 prev_row [i + 1] 0 = map (lev s1 s2 (Suc i)) [0..<length s2 + 1]"
    unfolding c1 by (rule inner_loop_row [OF Cons.prems(1) start]) simp_all
  have "outer_loop (c1 # rest) s2 prev_row i = outer_loop rest s2 (inner_loop c1 s2 prev_row [i + 1] 0) (i + 1)"
    by simp
  also have "\<dots> = map (lev s1 s2 (length s1)) [0..<length s2 + 1]"
    by (rule Cons.IH) (use row rest ilt in simp_all)
  finally show ?case .
qed

lemma outer_loop_last:
  "last (outer_loop s1 s2 [0..<length s2 + 1] 0) = lev s1 s2 (length s1) (length s2)"
proof -
  have init: "[0..<length s2 + 1] = map (lev s1 s2 0) [0..<length s2 + 1]"
    by (simp add: map_idI del: upt_Suc)
  have "outer_loop s1 s2 [0..<length s2 + 1] 0 = map (lev s1 s2 (length s1)) [0..<length s2 + 1]"
    by (rule outer_loop_row [OF init]) simp_all
  then show ?thesis by (simp add: last_map del: lev.simps)
qed

lemma outer_loop_last_Suc:
  "last (outer_loop s1 s2 [0..<Suc (length s2)] 0) = lev s1 s2 (length s1) (length s2)"
  using outer_loop_last [of s1 s2] by (simp del: upt_Suc)

lemma levenshtein_distance_edit_distance: "levenshtein_distance a b = edit_distance a b"
proof (cases "length a < length b")
  case True
  show ?thesis
  proof (cases "a = []")
    case True
    then show ?thesis by (simp add: levenshtein_distance_def edit_distance_def)
  next
    case False
    with True have "levenshtein_distance a b = lev b a (length b) (length a)"
      by (simp add: levenshtein_distance_def outer_loop_last_Suc del: upt_Suc)
    then show ?thesis by (simp add: edit_distance_def lev_sym [of a b])
  qed
next
  case False
  show ?thesis
  proof (cases "b = []")
    case True
    with False show ?thesis by (simp add: levenshtein_distance_def edit_distance_def lev_zero_right)
  next
    case bne: False
    with False show ?thesis
      by (simp add: levenshtein_distance_def outer_loop_last_Suc edit_distance_def del: upt_Suc)
  qed
qed

subsection \<open>Rounding to doubles\<close>

text \<open>
  The bounds of the rounding that the matcher needs: \<open>binade\<close> gives a power of two below its
  argument, rounding moves a number of \<open>[0, 1]\<close> by at most \<open>2^(-53)\<close> and keeps it in
  \<open>[0, 1]\<close>, and the edit distance is at most the longer length, so the quotient lies in
  \<open>[0, 1]\<close>.
\<close>

lemma bit_length_bounds: "0 < n \<Longrightarrow> 2 ^ bit_length n \<le> 2 * n \<and> n < 2 ^ bit_length n"
proof (induction n rule: bit_length.induct)
  case (1 n)
  show ?case
  proof (cases "n div 2 \<le> 0")
    case True
    with 1(2) have "n = 1" by simp
    then show ?thesis by (simp add: bit_length.simps [of 1] bit_length.simps [of 0])
  next
    case False
    then have pos: "0 < n div 2" by simp
    from 1(2) have np: "\<not> n \<le> 0" by simp
    from 1(1) [OF np pos] have ih: "2 ^ bit_length (n div 2) \<le> 2 * (n div 2)"
      "n div 2 < 2 ^ bit_length (n div 2)" by simp_all
    have bl: "bit_length n = Suc (bit_length (n div 2))" using np by (simp add: bit_length.simps [of n])
    have a: "2 * (n div 2) \<le> n" by simp
    have b: "n < 2 * (n div 2) + 2" by simp
    from ih(2) have c: "n div 2 + 1 \<le> 2 ^ bit_length (n div 2)" by simp
    show ?thesis unfolding bl using ih(1) a b c by simp
  qed
qed

lemma binade_le:
  assumes "0 < x"
  shows "2 powi (binade x) \<le> x"
proof -
  obtain p q where pq: "quotient_of x = (p, q)" by (cases "quotient_of x")
  from quotient_of_div [OF pq] have x: "x = of_int p / of_int q" .
  from quotient_of_denom_pos [OF pq] have q: "0 < q" .
  with assms x have p: "0 < p" by (simp add: zero_less_divide_iff)
  let ?k = "int (bit_length p) - int (bit_length q)"
  show ?thesis
  proof (cases "2 powi ?k \<le> x")
    case True
    then show ?thesis by (simp add: binade_def pq)
  next
    case False
    then have b: "binade x = ?k - 1" by (simp add: binade_def pq)
    from bit_length_bounds [OF p] have "(2::int) ^ bit_length p \<le> 2 * p" by simp
    then have "(of_int ((2::int) ^ bit_length p) :: rat) \<le> of_int (2 * p)" by (rule of_int_le_iff [THEN iffD2])
    then have pb: "(2::rat) ^ bit_length p \<le> 2 * of_int p" by simp
    from bit_length_bounds [OF q] have "q < 2 ^ bit_length q" by simp
    then have "(of_int q :: rat) < of_int (2 ^ bit_length q)" by (rule of_int_less_iff [THEN iffD2])
    then have qb: "(of_int q :: rat) < 2 ^ bit_length q" by simp
    have "(2::rat) powi (?k - 1) = 2 ^ bit_length p / (2 * 2 ^ bit_length q)"
      by (simp add: power_int_diff)
    also have "\<dots> \<le> (2 * of_int p) / (2 * 2 ^ bit_length q)"
      by (rule divide_right_mono [OF pb]) simp
    also have "\<dots> = of_int p / 2 ^ bit_length q" by simp
    also have "\<dots> \<le> of_int p / of_int q"
      using qb p q by (intro divide_left_mono) simp_all
    also have "\<dots> = x" by (simp add: x)
    finally show ?thesis by (simp only: b)
  qed
qed

lemma binade_nonpos: "0 < x \<Longrightarrow> x \<le> 1 \<Longrightarrow> binade x \<le> 0"
proof -
  assume x: "0 < x" "x \<le> 1"
  from binade_le [OF x(1)] x(2) have "(2::rat) powi (binade x) \<le> 2 powi 0" by simp
  then show ?thesis by (rule power_int_le_imp_le_exp [rotated]) simp_all
qed

lemma round_half_even_error: "\<bar>of_int (round_half_even y) - y\<bar> \<le> 1 / 2"
proof -
  have "of_int \<lfloor>y\<rfloor> \<le> y" "y < of_int \<lfloor>y\<rfloor> + 1" by linarith+
  then show ?thesis by (auto simp: round_half_even_def Let_def)
qed

lemma round_half_even_le: "y \<le> of_int N \<Longrightarrow> round_half_even y \<le> N"
proof -
  assume le: "y \<le> of_int N"
  then have f: "\<lfloor>y\<rfloor> \<le> N" by (simp add: floor_le_iff) 
  show ?thesis
  proof (cases "y = of_int \<lfloor>y\<rfloor>")
    case True
    then have "y - of_int \<lfloor>y\<rfloor> < 1 / 2" by simp
    with f show ?thesis by (simp add: round_half_even_def Let_def)
  next
    case False
    have "of_int \<lfloor>y\<rfloor> \<le> y" by linarith
    with False have "of_int \<lfloor>y\<rfloor> < y" by (auto simp: less_le)
    with le have "(of_int \<lfloor>y\<rfloor> :: rat) < of_int N" by simp
    then have "\<lfloor>y\<rfloor> < N" by (simp only: of_int_less_iff)
    then show ?thesis by (auto simp: round_half_even_def Let_def)
  qed
qed

lemma round_half_even_nonneg: "0 \<le> y \<Longrightarrow> 0 \<le> round_half_even y"
proof -
  assume "0 \<le> y"
  then have "0 \<le> \<lfloor>y\<rfloor>" by simp
  then show ?thesis by (auto simp: round_half_even_def Let_def)
qed

lemma round_positive_bounds:
  assumes "0 < x" "x \<le> 1"
  shows "\<bar>round_positive x - x\<bar> \<le> 1 / 2 ^ 53" and "0 \<le> round_positive x" and "round_positive x \<le> 1"
proof -
  define j where "j = max (binade x) (- 1022) - 52"
  define Q :: rat where "Q = 2 powi j"
  have rp: "round_positive x = of_int (round_half_even (x / Q)) * Q"
    by (simp add: round_positive_def Let_def Q_def j_def)
  from binade_nonpos [OF assms] have j: "j \<le> - 52" by (simp add: j_def)
  have Qpos: "0 < Q" by (simp add: Q_def)
  have "Q \<le> 2 powi (- 52)" unfolding Q_def using j by (intro power_int_increasing) simp_all
  also have "\<dots> = 1 / 2 ^ 52" by (simp add: power_int_minus field_simps)
  finally have Qle: "Q \<le> 1 / 2 ^ 52" .
  have "round_positive x - x = (of_int (round_half_even (x / Q)) - x / Q) * Q"
    using Qpos by (simp add: rp field_simps)
  then have "\<bar>round_positive x - x\<bar> = \<bar>of_int (round_half_even (x / Q)) - x / Q\<bar> * Q"
    using Qpos by (simp add: abs_mult)
  also have "\<dots> \<le> (1 / 2) * Q"
    using round_half_even_error [of "x / Q"] Qpos by (intro mult_right_mono) simp_all
  also have "\<dots> \<le> (1 / 2) * (1 / 2 ^ 52)" using Qle by simp
  finally show "\<bar>round_positive x - x\<bar> \<le> 1 / 2 ^ 53" by simp
  have "0 \<le> x / Q" using assms Qpos by simp
  from round_half_even_nonneg [OF this] Qpos show "0 \<le> round_positive x"
    by (simp add: rp)
  define N :: int where "N = 2 ^ nat (- j)"
  have "1 / Q = 2 powi (- j)" by (simp add: Q_def power_int_minus field_simps)
  also have "\<dots> = 2 ^ nat (- j)" using j by (simp add: power_int_def)
  also have "\<dots> = of_int N" by (simp add: N_def)
  finally have N: "1 / Q = of_int N" .
  have "x / Q \<le> 1 / Q" using assms Qpos by (simp add: divide_right_mono)
  with N have "round_half_even (x / Q) \<le> N" by (intro round_half_even_le) simp
  then have "(of_int (round_half_even (x / Q)) :: rat) \<le> of_int N" by (simp only: of_int_le_iff)
  then have "of_int (round_half_even (x / Q)) * Q \<le> of_int N * Q"
    using Qpos by (intro mult_right_mono) simp_all
  also have "of_int N * Q = 1" using N Qpos by (simp add: field_simps)
  finally show "round_positive x \<le> 1" by (simp add: rp)
qed

lemma round_double_bounds:
  assumes "0 \<le> x" "x \<le> 1"
  shows "\<bar>round_double x - x\<bar> \<le> 1 / 2 ^ 53" and "0 \<le> round_double x" and "round_double x \<le> 1"
  using round_positive_bounds [of x] assms by (auto simp: round_double_def)

lemma lev_le_max: "lev a b i j \<le> max i j"
proof (induction a b i j rule: lev.induct)
  case (3 a b i j)
  have "lev a b (Suc i) (Suc j) \<le> lev a b i j + 1" by (simp add: min_le_iff_disj)
  also have "\<dots> \<le> max i j + 1" using 3(3) by simp
  finally show ?case by simp
qed simp_all

lemma edit_distance_le_max: "edit_distance a b \<le> max (length a) (length b)"
  by (simp only: edit_distance_def lev_le_max)

lemma ratio_error:
  assumes "0 < m" "d \<le> m"
  shows "\<bar>round_double (1 - round_double (of_nat d / of_nat m)) - (1 - of_nat d / of_nat m)\<bar>
           \<le> 1 / 2 ^ 52"
proof -
  define x :: rat where "x = of_nat d / of_nat m"
  have x: "0 \<le> x" "x \<le> 1" using assms by (simp_all add: x_def)
  note e1 = round_double_bounds [OF x]
  have y: "0 \<le> 1 - round_double x" "1 - round_double x \<le> 1" using e1 by simp_all
  note e2 = round_double_bounds [OF y]
  have "\<bar>round_double (1 - round_double x) - (1 - x)\<bar> \<le> 1 / 2 ^ 53 + 1 / 2 ^ 53"
    using e1(1) e2(1) by linarith
  then show ?thesis by (simp add: x_def)
qed

lemma default_threshold_value: "default_threshold = 7656119366529843 / 2 ^ 53"
  by code_simp

lemma ratio_tie: "round_double (1 - round_double (3 / 20)) = 7656119366529843 / 2 ^ 53"
  by code_simp

lemma default_ratio:
  assumes m: "0 < m" and dm: "d \<le> m" and bound: "m \<le> 2 ^ 40"
  shows "(default_threshold \<le> round_double (1 - round_double (of_nat d / of_nat m)))
           = (20 * d \<le> 3 * m)"
proof -
  define D :: rat where "D = of_nat d"
  define M :: rat where "M = of_nat m"
  define q where "q = D / M"
  define g where "g = 1 / (20 * M)"
  define r' where "r' = round_double (1 - round_double q)"
  have Mpos: "0 < M" using m by (simp add: M_def)
  have "(of_nat m :: rat) \<le> of_nat (2 ^ 40)" using bound by (simp only: of_nat_le_iff)
  then have Mle: "M \<le> 2 ^ 40" by (simp add: M_def)
  have "1 / (20 * 2 ^ 40) \<le> 1 / (20 * M)"
    using Mpos Mle by (intro divide_left_mono) simp_all
  then have gap: "1 / 21990232555520 \<le> g" by (simp add: g_def)
  have p52: "(1::rat) / 2 ^ 52 = 1 / 4503599627370496" by simp
  from ratio_error [OF m dm] have "\<bar>r' - (1 - q)\<bar> \<le> 1 / 2 ^ 52"
    by (simp add: r'_def q_def D_def M_def)
  then have err: "\<bar>r' - (1 - q)\<bar> \<le> 1 / 4503599627370496" by (simp only: p52)
  consider (lt) "20 * d < 3 * m" | (eq) "20 * d = 3 * m" | (gt) "3 * m < 20 * d" by linarith
  then have "(7656119366529843 / 9007199254740992 \<le> r') = (20 * d \<le> 3 * m)"
  proof cases
    case lt
    then have "20 * d + 1 \<le> 3 * m" by simp
    then have "(of_nat (20 * d + 1) :: rat) \<le> of_nat (3 * m)" by (simp only: of_nat_le_iff)
    then have "20 * D + 1 \<le> 3 * M" by (simp add: D_def M_def)
    then have "20 * D \<le> 3 * M - 1" by simp
    then have "(20 * D) / (20 * M) \<le> (3 * M - 1) / (20 * M)"
      using Mpos by (intro divide_right_mono) simp_all
    then have "D / M \<le> (3 * M - 1) / (20 * M)" by simp
    also have "\<dots> = 3 / 20 - 1 / (20 * M)" using Mpos by (simp add: field_simps)
    finally have "q \<le> 3 / 20 - g" by (simp only: q_def g_def)
    with gap err have "7656119366529843 / 9007199254740992 \<le> r'" by linarith
    with lt show ?thesis by simp
  next
    case eq
    then have "(of_nat (20 * d) :: rat) = of_nat (3 * m)" by (simp only:)
    then have "20 * D = 3 * M" by (simp add: D_def M_def)
    then have "q = 3 / 20" using Mpos by (simp add: q_def field_simps)
    then have "r' = 7656119366529843 / 2 ^ 53" by (simp only: r'_def ratio_tie)
    with eq show ?thesis by simp
  next
    case gt
    then have "3 * m + 1 \<le> 20 * d" by simp
    then have "(of_nat (3 * m + 1) :: rat) \<le> of_nat (20 * d)" by (simp only: of_nat_le_iff)
    then have "3 * M + 1 \<le> 20 * D" by (simp add: D_def M_def)
    then have "(3 * M + 1) / (20 * M) \<le> (20 * D) / (20 * M)"
      using Mpos by (intro divide_right_mono) simp_all
    then have "(3 * M + 1) / (20 * M) \<le> D / M" by simp
    moreover have "(3 * M + 1) / (20 * M) = 3 / 20 + 1 / (20 * M)" using Mpos by (simp add: field_simps)
    ultimately have "3 / 20 + g \<le> q" by (simp only: q_def g_def)
    with gap err have "r' < 7656119366529843 / 9007199254740992" by linarith
    with gt show ?thesis by simp
  qed
  moreover have "(7656119366529843::rat) / 2 ^ 53 = 7656119366529843 / 9007199254740992" by simp
  ultimately show ?thesis by (simp only: default_threshold_value r'_def q_def D_def M_def)
qed

lemma exact_ratio:
  assumes "0 < m"
  shows "((85 / 100 :: rat) \<le> 1 - of_nat d / of_nat m) = (20 * d \<le> 3 * m)"
proof -
  define D :: rat where "D = of_nat d"
  define M :: rat where "M = of_nat m"
  have Mpos: "0 < M" using assms by (simp add: M_def)
  have "((85 / 100 :: rat) \<le> 1 - D / M) = (D / M \<le> 3 / 20)" by auto
  also have "\<dots> = (D \<le> 3 / 20 * M)" using Mpos by (simp only: pos_divide_le_eq)
  also have "\<dots> = (20 * D \<le> 3 * M)" by auto
  also have "\<dots> = ((of_nat (20 * d) :: rat) \<le> of_nat (3 * m))" by (simp add: D_def M_def)
  also have "\<dots> = (20 * d \<le> 3 * m)" by (simp only: of_nat_le_iff)
  finally show ?thesis by (simp only: D_def M_def)
qed

lemma shining: "is_similar_title ''The Shining'' ''The Shiming'' default_threshold"
  by code_simp

lemma small_distances:
  "levenshtein_distance ''abcde'' ''abcdx'' = 1" "levenshtein_distance ''abcde'' ''avwxy'' = 4"
  "levenshtein_distance ''The Shining'' ''The Shiming'' = 1"
  by code_simp+

lemma rounded_ratios:
  "is_similar_title ''abcde'' ''abcdx'' (round_double (8 / 10))"
  "\<not> is_similar_title ''abcde'' ''avwxy'' (round_double (2 / 10))"
  "\<not> round_double (8 / 10) \<le> 1 - 1 / 5"
  by code_simp+

text \<open>
  C8, as stated: past the three guards, \<open>is_similar_title(a, b, threshold)\<close> is true exactly
  when \<open>1 - d / max(len(a), len(b)) \<ge> threshold\<close>. The function computes the quotient and the
  difference in doubles, and for some thresholds the rounding decides. With the threshold
  \<open>0.8\<close>, whose double lies above \<open>4/5\<close>, \<open>abcde\<close> and \<open>abcdx\<close> (distance 1, ratio \<open>4/5\<close>)
  are similar although the ratio is below the threshold that is passed; with the threshold
  \<open>0.2\<close>, \<open>abcde\<close> and \<open>avwxy\<close> (distance 4, ratio \<open>1/5\<close>) are not similar although the
  ratio reaches the decimal \<open>0.2\<close>.
\<close>

theorem C8_counterexample:
  "is_similar_title ''abcde'' ''abcdx'' (round_double (8 / 10)) \<and>
   \<not> round_double (8 / 10) \<le> 1 - of_nat (edit_distance ''abcde'' ''abcdx'')
                                    / of_nat (max (length ''abcde'') (length ''abcdx'')) \<and>
   \<not> is_similar_title ''abcde'' ''avwxy'' (round_double (2 / 10)) \<and>
   (2 / 10 :: rat) \<le> 1 - of_nat (edit_distance ''abcde'' ''avwxy'')
                          / of_nat (max (length ''abcde'') (length ''avwxy''))"
  using rounded_ratios
  by (simp add: levenshtein_distance_edit_distance [symmetric] small_distances)

text \<open>
  C8, amended: \<open>is_similar_title(a, b, threshold)\<close> is false when either input is empty; else
  true when the inputs are equal; else false when either is shorter than 5 characters; else
  it is true exactly when the ratio computed in doubles, the rounded \<open>1 - q\<close> for the rounded
  quotient \<open>q\<close> of \<open>d\<close> by \<open>max(len(a), len(b))\<close>, reaches the threshold, where \<open>d\<close> is the edit
  distance of the specification. The computed ratio differs from the exact one by at most
  \<open>2^(-52)\<close>. With the default threshold \<open>0.85\<close> and inputs of at most \<open>2^40\<close> characters the
  rounding never decides: the function is true exactly when the exact ratio is at least
  \<open>85/100\<close>. \<open>The Shining\<close> and \<open>The Shiming\<close> are similar.
\<close>

theorem C8_similarity_rule_double:
  "is_similar_title a b threshold =
     (if a = [] \<or> b = [] then False
      else if a = b then True
      else if length a < 5 \<or> length b < 5 then False
      else threshold \<le> round_double (1 - round_double
             (of_nat (edit_distance a b) / of_nat (max (length a) (length b))))) \<and>
   (a \<noteq> [] \<longrightarrow>
      \<bar>round_double (1 - round_double
            (of_nat (edit_distance a b) / of_nat (max (length a) (length b))))
        - (1 - of_nat (edit_distance a b) / of_nat (max (length a) (length b)))\<bar> \<le> 1 / 2 ^ 52) \<and>
   (length a \<le> 2 ^ 40 \<and> length b \<le> 2 ^ 40 \<longrightarrow>
      is_similar_title a b default_threshold =
        (if a = [] \<or> b = [] then False
         else if a = b then True
         else if length a < 5 \<or> length b < 5 then False
         else (85 / 100 :: rat) \<le> 1 - of_nat (edit_distance a b)
                                        / of_nat (max (length a) (length b)))) \<and>
   is_similar_title ''The Shining'' ''The Shiming'' default_threshold"
proof -
  let ?d = "edit_distance a b"
  let ?m = "max (length a) (length b)"
  have rule: "is_similar_title a b t =
     (if a = [] \<or> b = [] then False
      else if a = b then True
      else if length a < 5 \<or> length b < 5 then False
      else t \<le> round_double (1 - round_double (of_nat ?d / of_nat ?m)))" for t
    by (simp add: is_similar_title_def levenshtein_distance_edit_distance Let_def)
  have err: "\<bar>round_double (1 - round_double (of_nat ?d / of_nat ?m))
               - (1 - of_nat ?d / of_nat ?m)\<bar> \<le> 1 / 2 ^ 52" if "a \<noteq> []"
  proof -
    from that have "0 < ?m" by (simp add: less_max_iff_disj)
    then show ?thesis using edit_distance_le_max by (rule ratio_error)
  qed
  have dflt: "is_similar_title a b default_threshold =
        (if a = [] \<or> b = [] then False
         else if a = b then True
         else if length a < 5 \<or> length b < 5 then False
         else (85 / 100 :: rat) \<le> 1 - of_nat ?d / of_nat ?m)"
    if len: "length a \<le> 2 ^ 40 \<and> length b \<le> 2 ^ 40"
  proof (cases "a = []")
    case True
    then show ?thesis by (simp add: is_similar_title_def)
  next
    case False
    then have m: "0 < ?m" by (simp add: less_max_iff_disj)
    from len have bound: "?m \<le> 2 ^ 40" by simp
    have exact: "((85 / 100 :: rat) \<le> 1 - of_nat ?d / of_nat ?m) = (20 * ?d \<le> 3 * ?m)"
      by (rule exact_ratio [OF m])
    show ?thesis
      by (simp only: rule [of default_threshold] exact
            default_ratio [OF m edit_distance_le_max bound])
  qed
  from rule [of threshold] err dflt shining show ?thesis by blast
qed

theorem C8_similarity_rule_double_witness:
  "''The Shining'' \<noteq> [] \<and>
   length ''The Shining'' \<le> 2 ^ 40 \<and> length ''The Shiming'' \<le> 2 ^ 40 \<and>
   edit_distance ''The Shining'' ''The Shiming'' = 1 \<and>
   (85 / 100 :: rat) \<le> 1 - 1 / 11 \<and>
   is_similar_title ''The Shining'' ''The Shiming'' default_threshold \<and>
   \<bar>round_double (1 - round_double (1 / 11)) - (1 - 1 / 11)\<bar> \<le> 1 / 2 ^ 52"
  using C8_similarity_rule_double [of "''The Shining''" "''The Shiming''" default_threshold]
  by (auto simp add: levenshtein_distance_edit_distance [symmetric] small_distances)

subsection \<open>The matcher\<close>

lemma rmatch_flag: "no_bol r \<Longrightarrow> rmatch r b s = rmatch r False s"
proof (induction r b s rule: rmatch.induct)
  case (8 r1 r2 b s)
  then have a: "rmatch r1 b s = rmatch r1 False s" by simp
  have m1: "map (\<lambda>s'. rmatch r2 (b \<and> length s' = length s) s') (rmatch r1 False s)
      = map (rmatch r2 False) (rmatch r1 False s)"
    by (rule map_cong [OF refl]) (use 8 a in auto)
  have m2: "map (\<lambda>s'. rmatch r2 (False \<and> length s' = length s) s') (rmatch r1 False s)
      = map (rmatch r2 False) (rmatch r1 False s)"
    by (rule map_cong [OF refl]) (use 8 in auto)
  show ?case by (simp only: rmatch.simps(8) a m1 m2)
next
  case (10 r b s)
  then have a: "rmatch r b s = rmatch r False s" by simp
  show ?case by (simp only: rmatch.simps(10) [of r b s] rmatch.simps(10) [of r False s] a)
qed simp_all

lemma rmatch_suffix: "s' \<in> set (rmatch r b s) \<Longrightarrow> \<exists>p. s = p @ s'"
proof (induction r b s arbitrary: s' rule: rmatch.induct)
  case (8 r1 r2 b s)
  then obtain s1 where s1: "s1 \<in> set (rmatch r1 b s)"
    and s': "s' \<in> set (rmatch r2 (b \<and> length s1 = length s) s1)" by auto
  from 8(1) [OF s1] obtain p where "s = p @ s1" by blast
  moreover from 8(2) [OF s1 s'] obtain q where "s1 = q @ s'" by blast
  ultimately show ?case by simp
next
  case (10 r b s)
  show ?case
  proof (cases "s' = s")
    case True
    then show ?thesis by simp
  next
    case False
    with 10(3) obtain s1 where s1: "s1 \<in> set (rmatch r b s)" and lt: "length s1 < length s"
      and s': "s' \<in> set (rmatch (Star r) False s1)"
      by (auto simp add: rmatch.simps(10) [of r b s] split: if_splits)
    from 10(1) [OF s1] obtain p where "s = p @ s1" by blast
    moreover from 10(2) [OF s1 lt s'] obtain q where "s1 = q @ s'" by blast
    ultimately show ?thesis by simp
  qed
next
  case (1 b s)
  then show ?case by simp
next
  case (2 a b s)
  then show ?case by (cases s) (simp_all split: if_splits)
next
  case (3 a b s)
  then show ?case by (cases s) (simp_all split: if_splits)
next
  case (4 p b s)
  then show ?case by (cases s) (simp_all split: if_splits)
next
  case (5 b s)
  then show ?case by (cases s) (simp_all split: if_splits)
next
  case (6 b s)
  then show ?case by (simp split: if_splits)
next
  case (7 b s)
  then show ?case by (simp split: if_splits)
next
  case (9 r1 r2 b s)
  from 9(3) have "s' \<in> set (rmatch r1 b s) \<or> s' \<in> set (rmatch r2 b s)" by simp
  with 9(1,2) show ?case by blast
qed

lemma rmatch_length: "s' \<in> set (rmatch r b s) \<Longrightarrow> length s' \<le> length s"
  using rmatch_suffix by fastforce

lemma rmatch_set: "s' \<in> set (rmatch r b s) \<Longrightarrow> set s' \<subseteq> set s"
  using rmatch_suffix by fastforce

lemma simple_no_bol: "simple r \<Longrightarrow> no_bol r"
  by (induction r) auto

lemma simple_extend:
  "simple r \<Longrightarrow> y \<in> set (rmatch r b x) \<Longrightarrow> y @ z \<in> set (rmatch r b' (x @ z))"
proof (induction r b x arbitrary: y b' rule: rmatch.induct)
  case (8 r1 r2 b s)
  from 8(4) obtain s1 where s1: "s1 \<in> set (rmatch r1 b s)"
    and y: "y \<in> set (rmatch r2 (b \<and> length s1 = length s) s1)"
    by (auto simp only: rmatch.simps(8) set_concat set_map)
  from 8(3) have "simple r1" "simple r2" by simp_all
  from 8(1) [OF \<open>simple r1\<close> s1] have a: "s1 @ z \<in> set (rmatch r1 b' (s @ z))" .
  from 8(2) [OF s1 \<open>simple r2\<close> y]
  have c: "y @ z \<in> set (rmatch r2 (b' \<and> length (s1 @ z) = length (s @ z)) (s1 @ z))" .
  show ?case
    by (simp only: rmatch.simps(8) set_concat set_map) (use a c in blast)
next
  case (10 r b s)
  from 10(3) have sr: "simple r" by simp
  show ?case
  proof (cases "y = s")
    case True
    then show ?thesis by (simp only: rmatch.simps(10) [of r b' "s @ z"]) simp
  next
    case False
    with 10(4) obtain s1 where s1: "s1 \<in> set (rmatch r b s)" and lt: "length s1 < length s"
      and y: "y \<in> set (rmatch (Star r) False s1)"
      by (auto simp add: rmatch.simps(10) [of r b s] split: if_splits)
    from 10(1) [OF sr s1] have a: "s1 @ z \<in> set (rmatch r b' (s @ z))" .
    from 10(2) [OF s1 lt 10(3) y] have b: "y @ z \<in> set (rmatch (Star r) False (s1 @ z))" .
    from lt have c: "length (s1 @ z) < length (s @ z)" by simp
    have "y @ z \<in> (\<Union>s' \<in> set (rmatch r b' (s @ z)).
             set (if length s' < length (s @ z) then rmatch (Star r) False s' else []))"
      using a b c by (intro UN_I [of "s1 @ z"]) simp_all
    then show ?thesis by (simp only: rmatch.simps(10) [of r b' "s @ z"] set_concat set_map set_append image_image) blast
  qed
next
  case (1 b s)
  then show ?case by simp
next
  case (2 a b s)
  then show ?case by (cases s) (simp_all split: if_splits)
next
  case (3 a b s)
  then show ?case by (cases s) (simp_all split: if_splits)
next
  case (4 p b s)
  then show ?case by (cases s) (simp_all split: if_splits)
next
  case (5 b s)
  then show ?case by simp
next
  case (6 b s)
  then show ?case by simp
next
  case (7 b s)
  then show ?case by simp
next
  case (9 r1 r2 b s)
  from 9(3) have sr: "simple r1" "simple r2" by simp_all
  from 9(4) have "y \<in> set (rmatch r1 b s) \<or> y \<in> set (rmatch r2 b s)" by simp
  with 9(1) [OF sr(1)] 9(2) [OF sr(2)] show ?case by auto
qed

lemma rmatch_Seqs_Cons:
  "rmatch (Seqs (r # rs)) b s =
     concat (map (\<lambda>s'. rmatch (Seqs rs) (b \<and> length s' = length s) s') (rmatch r b s))"
  by (cases rs) simp_all

lemma simple_Seqs: "list_all simple rs \<Longrightarrow> simple (Seqs rs)"
  by (induction rs rule: Seqs.induct) simp_all

lemma tail_match: "CHR 0x0A \<notin> set y \<Longrightarrow> rmatch (Seqs to_end) b y = [[]]"
proof (induction y arbitrary: b)
  case Nil
  then show ?case by (simp add: to_end_def rmatch.simps(10) [of Dot b "[]"])
next
  case (Cons c cs)
  then have ih: "rmatch (Seqs to_end) False cs = [[]]" by simp
  from Cons.prems have c: "c \<noteq> CHR 0x0A" by auto
  have sd: "rmatch (Star Dot) b (c # cs) = rmatch (Star Dot) False cs @ [c # cs]"
    using c by (simp add: rmatch.simps(10) [of Dot b "c # cs"])
  have "rmatch (Seq (Star Dot) Eol) b (c # cs) = rmatch (Seq (Star Dot) Eol) False cs"
    using c by (simp add: sd)
  then have "rmatch (Seqs to_end) b (c # cs) = rmatch (Seqs to_end) False cs"
    by (simp add: to_end_def)
  with ih show ?case by simp
qed

subsection \<open>Substitution of the edition patterns\<close>

lemma no_bol_Seqs: "list_all no_bol rs \<Longrightarrow> no_bol (Seqs rs)"
  by (induction rs rule: Seqs.induct) simp_all

lemma rmatch_Seqs_append_set:
  "list_all no_bol cs \<Longrightarrow> list_all no_bol ts \<Longrightarrow>
   set (rmatch (Seqs (cs @ ts)) b s) = (\<Union>y \<in> set (rmatch (Seqs cs) False s). set (rmatch (Seqs ts) False y))"
proof (induction cs arbitrary: b s)
  case Nil
  then show ?case using rmatch_flag [OF no_bol_Seqs, of ts b s] by simp
next
  case (Cons c cs)
  then have nc: "no_bol c" and ncs: "list_all no_bol cs" by simp_all
  have ih: "\<And>b s. set (rmatch (Seqs (cs @ ts)) b s)
      = (\<Union>y \<in> set (rmatch (Seqs cs) False s). set (rmatch (Seqs ts) False y))"
    using Cons.IH [OF ncs Cons.prems(2)] .
  have flag: "\<And>b s. rmatch (Seqs cs) b s = rmatch (Seqs cs) False s"
    using rmatch_flag [OF no_bol_Seqs [OF ncs]] .
  have "set (rmatch (Seqs ((c # cs) @ ts)) b s)
      = (\<Union>s' \<in> set (rmatch c False s). set (rmatch (Seqs (cs @ ts)) (b \<and> length s' = length s) s'))"
    using rmatch_flag [OF nc, of b s] by (simp add: rmatch_Seqs_Cons del: Seqs.simps)
  also have "\<dots> = (\<Union>s' \<in> set (rmatch c False s).
                      \<Union>y \<in> set (rmatch (Seqs cs) False s'). set (rmatch (Seqs ts) False y))"
    by (simp only: ih)
  also have "\<dots> = (\<Union>y \<in> set (rmatch (Seqs (c # cs)) False s). set (rmatch (Seqs ts) False y))"
    by (simp add: rmatch_Seqs_Cons flag [of "False \<and> _"] del: Seqs.simps)
  finally show ?case .
qed

lemma simple_list_no_bol: "list_all simple rs \<Longrightarrow> list_all no_bol rs"
  by (induction rs) (simp_all add: simple_no_bol)

lemma to_end_no_bol: "list_all no_bol to_end"
  by (simp add: to_end_def)

lemma edition_like_no_bol: "edition_like P \<Longrightarrow> no_bol P"
  unfolding edition_like_def
  by (auto intro!: no_bol_Seqs simp: simple_list_no_bol to_end_no_bol)

lemma edition_match_set:
  assumes "P = Seqs (core @ to_end)" "list_all simple core" "CHR 0x0A \<notin> set x"
  shows "set (rmatch P b x) = (if rmatch (Seqs core) False x = [] then {} else {[]})"
proof -
  have "set (rmatch P b x)
      = (\<Union>y \<in> set (rmatch (Seqs core) False x). set (rmatch (Seqs to_end) False y))"
    unfolding assms(1)
    by (rule rmatch_Seqs_append_set [OF simple_list_no_bol [OF assms(2)] to_end_no_bol])
  also have "\<dots> = (\<Union>y \<in> set (rmatch (Seqs core) False x). {[]})"
  proof -
    have "set (rmatch (Seqs to_end) False y) = {[]}" if "y \<in> set (rmatch (Seqs core) False x)" for y
    proof -
      from rmatch_set [OF that] assms(3) have "CHR 0x0A \<notin> set y" by auto
      from tail_match [OF this] show ?thesis by simp
    qed
    then show ?thesis by simp
  qed
  also have "\<dots> = (if rmatch (Seqs core) False x = [] then {} else {[]})"
    by (cases "rmatch (Seqs core) False x") auto
  finally show ?thesis .
qed

lemma edition_match_nil:
  assumes "edition_like P" "CHR 0x0A \<notin> set x" "y \<in> set (rmatch P b x)"
  shows "y = []"
proof -
  from assms(1) obtain core where c: "P = Seqs (core @ to_end)" "list_all simple core"
    unfolding edition_like_def by blast
  from edition_match_set [OF c assms(2), of b] assms(3) show ?thesis by (auto split: if_splits)
qed

lemma edition_match_empty: "edition_like P \<Longrightarrow> rmatch P b [] = []"
proof -
  assume "edition_like P"
  then obtain core where c: "P = Seqs (core @ to_end)" "list_all simple core"
    "rmatch (Seqs core) False [] = []"
    unfolding edition_like_def by blast
  from edition_match_set [OF c(1,2), of "[]" b] c(3) show ?thesis by simp
qed

lemma edition_match_extend:
  assumes "edition_like P" "CHR 0x0A \<notin> set (x @ z)" "rmatch P b x \<noteq> []"
  shows "rmatch P b' (x @ z) \<noteq> []"
proof -
  from assms(1) obtain core where c: "P = Seqs (core @ to_end)" "list_all simple core"
    unfolding edition_like_def by blast
  from assms(2) have nx: "CHR 0x0A \<notin> set x" by simp
  from assms(3) have "set (rmatch P b x) \<noteq> {}" by simp
  with edition_match_set [OF c nx, of b] have "rmatch (Seqs core) False x \<noteq> []"
    by (simp split: if_splits)
  then have y: "hd (rmatch (Seqs core) False x) \<in> set (rmatch (Seqs core) False x)" by simp
  have "hd (rmatch (Seqs core) False x) @ z \<in> set (rmatch (Seqs core) False (x @ z))"
    by (rule simple_extend [OF simple_Seqs [OF c(2)] y])
  then have "rmatch (Seqs core) False (x @ z) \<noteq> []" by (metis empty_iff empty_set)
  with edition_match_set [OF c assms(2), of b'] have "set (rmatch P b' (x @ z)) = {[]}" by simp
  then show ?thesis by force
qed

lemma unmatched_Cons: "unmatched P (c # cs) \<Longrightarrow> unmatched P cs"
  unfolding unmatched_def
proof
  fix k assume "\<forall>k. rmatch P False (drop k (c # cs)) = []"
  then have "rmatch P False (drop (Suc k) (c # cs)) = []" by blast
  then show "rmatch P False (drop k cs) = []" by simp
qed

lemma unmatched_sub: "no_bol P \<Longrightarrow> unmatched P s \<Longrightarrow> re_sub_from P repl b s = s"
proof (induction s arbitrary: b)
  case Nil
  from Nil(2) have "rmatch P False (drop 0 []) = []" unfolding unmatched_def by blast
  with rmatch_flag [OF Nil(1), of b "[]"] have "rmatch P b [] = []" by simp
  then show ?case by (simp add: re_sub_from.simps [of P repl b "[]"])
next
  case (Cons c cs)
  from Cons(3) have "rmatch P False (drop 0 (c # cs)) = []" unfolding unmatched_def by blast
  with rmatch_flag [OF Cons(2), of b "c # cs"] have "rmatch P b (c # cs) = []" by simp
  moreover from Cons.IH [OF Cons(2) unmatched_Cons [OF Cons(3)]]
  have "re_sub_from P repl False cs = cs" .
  ultimately show ?case by (simp add: re_sub_from.simps [of P repl b "c # cs"])
qed

lemma edition_sub_cut:
  assumes "edition_like P"
  shows "CHR 0x0A \<notin> set s \<Longrightarrow>
    \<exists>n. re_sub_from P [] b s = take n s \<and> (\<forall>k<n. rmatch P False (drop k s) = [])"
proof (induction s arbitrary: b)
  case Nil
  have "re_sub_from P [] b [] = []"
    by (simp add: re_sub_from.simps [of P "[]" b "[]"] edition_match_empty [OF assms])
  then show ?case by (intro exI [of _ 0]) simp
next
  case (Cons c cs)
  have flag: "rmatch P b (c # cs) = rmatch P False (c # cs)"
    by (rule rmatch_flag [OF edition_like_no_bol [OF assms]])
  show ?case
  proof (cases "rmatch P b (c # cs)")
    case Nil
    from Cons have "CHR 0x0A \<notin> set cs" by simp
    from Cons.IH [OF this, of False] obtain n where
      n: "re_sub_from P [] False cs = take n cs" "\<forall>k<n. rmatch P False (drop k cs) = []" by blast
    from Nil n(1) have "re_sub_from P [] b (c # cs) = take (Suc n) (c # cs)"
      by (simp add: re_sub_from.simps [of P "[]" b "c # cs"])
    moreover have "\<forall>k<Suc n. rmatch P False (drop k (c # cs)) = []"
    proof (intro allI impI)
      fix k assume "k < Suc n"
      show "rmatch P False (drop k (c # cs)) = []"
      proof (cases k)
        case 0
        with Nil flag show ?thesis by simp
      next
        case (Suc k')
        with \<open>k < Suc n\<close> n(2) show ?thesis by simp
      qed
    qed
    ultimately show ?thesis by blast
  next
    case (Cons s' rest)
    then have "s' \<in> set (rmatch P b (c # cs))" by simp
    from edition_match_nil [OF assms Cons.prems this] have "s' = []" .
    with Cons have "re_sub_from P [] b (c # cs) = []"
      by (simp add: re_sub_from.simps [of P "[]" b "c # cs"]
          re_sub_from.simps [of P "[]" False "[]"] edition_match_empty [OF assms])
    then show ?thesis by (intro exI [of _ 0]) simp
  qed
qed

lemma unmatched_take_at:
  assumes "edition_like P" "CHR 0x0A \<notin> set u" "rmatch P False (drop k u) = []"
  shows "rmatch P False (drop k (take n u)) = []"
proof (rule ccontr)
  assume m: "rmatch P False (drop k (take n u)) \<noteq> []"
  have split: "drop k u = drop k (take n u) @ drop (max n k) u"
  proof (cases "k \<le> n")
    case True
    have "drop k u = drop k (take n u @ drop n u)" by simp
    also have "\<dots> = drop k (take n u) @ drop (k - length (take n u)) (drop n u)"
      by (rule drop_append)
    also have "drop (k - length (take n u)) (drop n u) = drop n u"
      using True by (cases "n \<le> length u") simp_all
    finally show ?thesis using True by (simp add: max_def)
  next
    case False
    then show ?thesis by (simp add: max_def)
  qed
  have "CHR 0x0A \<notin> set (drop k (take n u) @ drop (max n k) u)"
    using assms(2) split by (metis in_set_dropD)
  from edition_match_extend [OF assms(1) this m, of False] split assms(3) show False by simp
qed

lemma unmatched_take: "edition_like P \<Longrightarrow> CHR 0x0A \<notin> set u \<Longrightarrow> unmatched P u \<Longrightarrow> unmatched P (take n u)"
  unfolding unmatched_def using unmatched_take_at by blast

lemma unmatched_drop: "unmatched P u \<Longrightarrow> unmatched P (drop n u)"
  unfolding unmatched_def by simp

lemma edition_sub_unmatched:
  assumes "edition_like P" "CHR 0x0A \<notin> set s"
  shows "unmatched P (re_sub P [] s)" and "\<exists>n. re_sub P [] s = take n s"
proof -
  from edition_sub_cut [OF assms, of True] obtain n where
    n: "re_sub P [] s = take n s" "\<forall>k<n. rmatch P False (drop k s) = []"
    unfolding re_sub_def by blast
  show "\<exists>n. re_sub P [] s = take n s" using n(1) by blast
  have "rmatch P False (drop k (take n s)) = []" for k
  proof (cases "k < n")
    case True
    with n(2) have "rmatch P False (drop k s) = []" by simp
    from unmatched_take_at [OF assms this] show ?thesis .
  next
    case False
    then show ?thesis by (simp add: edition_match_empty [OF assms(1)])
  qed
  then show "unmatched P (re_sub P [] s)" unfolding unmatched_def n(1) by blast
qed

subsection \<open>Idempotence of the edition-variant stripper\<close>

lemma rev_drop_rev: "rev (drop b (rev v)) = take (length v - b) v"
  by (simp add: rev_drop)

lemma strip_take_drop: "\<exists>a n. strip u = take n (drop a u)"
proof -
  obtain a where a: "dropWhile isspace u = drop a u"
    using dropWhile_eq_drop by blast
  obtain b where b: "dropWhile isspace (rev (drop a u)) = drop b (rev (drop a u))"
    using dropWhile_eq_drop by blast
  have "strip u = rev (drop b (rev (drop a u)))" by (simp add: strip_def a b)
  also have "\<dots> = take (length (drop a u) - b) (drop a u)" by (rule rev_drop_rev)
  finally show ?thesis by blast
qed

lemma set_strip: "set (strip u) \<subseteq> set u"
proof -
  from strip_take_drop obtain a n where "strip u = take n (drop a u)" by blast
  then show ?thesis by (metis in_set_dropD in_set_takeD subsetI)
qed

lemma strip_fixed:
  assumes "s = [] \<or> (\<not> isspace (hd s) \<and> \<not> isspace (last s))"
  shows "strip s = s"
proof (cases s)
  case Nil
  then show ?thesis by (simp add: strip_def)
next
  case (Cons c cs)
  with assms have h: "\<not> isspace c" and l: "\<not> isspace (last s)" by simp_all
  from h Cons have a: "dropWhile isspace s = s" by simp
  from Cons have "rev s \<noteq> []" by simp
  then obtain d ds where r: "rev s = d # ds" by (cases "rev s") simp_all
  then have "d = hd (rev s)" by simp
  also have "\<dots> = last s" using Cons by (simp add: hd_rev)
  finally have "\<not> isspace d" using l by simp
  with r have "dropWhile isspace (rev s) = rev s" by simp
  with a show ?thesis by (simp add: strip_def)
qed

lemma strip_ends: "strip s = [] \<or> (\<not> isspace (hd (strip s)) \<and> \<not> isspace (last (strip s)))"
proof (cases "strip s = []")
  case True
  then show ?thesis by simp
next
  case False
  define u where "u = dropWhile isspace s"
  define w where "w = dropWhile isspace (rev u)"
  have t: "strip s = rev w" by (simp add: strip_def u_def w_def)
  with False have wne: "w \<noteq> []" by simp
  then have hw: "\<not> isspace (hd w)" unfolding w_def by (rule hd_dropWhile)
  from wne have une: "u \<noteq> []" unfolding w_def by auto
  then have hu: "\<not> isspace (hd u)" unfolding u_def by (rule hd_dropWhile)
  obtain b where b: "w = drop b (rev u)" unfolding w_def using dropWhile_eq_drop by blast
  with wne have "b < length (rev u)" by simp
  then have "last w = last (rev u)" unfolding b by (rule last_drop)
  also have "\<dots> = hd u" using une by (simp add: last_rev)
  finally have lw: "\<not> isspace (last w)" using hu by simp
  have "hd (strip s) = last w" using wne by (simp add: t hd_rev)
  moreover have "last (strip s) = hd w" using wne by (simp add: t last_rev)
  ultimately show ?thesis using hw lw by simp
qed

lemma strip_idem: "strip (strip s) = strip s"
  using strip_ends [of s] by (rule strip_fixed)

lemma unmatched_strip:
  assumes "edition_like P" "CHR 0x0A \<notin> set u" "unmatched P u"
  shows "unmatched P (strip u)"
proof -
  from strip_take_drop obtain a n where s: "strip u = take n (drop a u)" by blast
  have "CHR 0x0A \<notin> set (drop a u)" using assms(2) by (metis in_set_dropD)
  from unmatched_take [OF assms(1) this unmatched_drop [OF assms(3)]] s show ?thesis by simp
qed

lemma strip_patterns_prefix:
  "list_all edition_like ps \<Longrightarrow> CHR 0x0A \<notin> set s \<Longrightarrow> \<exists>n. strip_patterns ps s = take n s"
proof (induction ps arbitrary: s)
  case Nil
  have "strip_patterns [] s = take (length s) s" by simp
  then show ?case by blast
next
  case (Cons P ps)
  then have P: "edition_like P" and ps: "list_all edition_like ps" by simp_all
  from edition_sub_unmatched(2) [OF P Cons.prems(2)] obtain n where n: "re_sub P [] s = take n s"
    by blast
  have "CHR 0x0A \<notin> set (take n s)" using Cons.prems(2) by (metis in_set_takeD)
  from Cons.IH [OF ps this] obtain m where "strip_patterns ps (take n s) = take m (take n s)"
    by blast
  then have "strip_patterns (P # ps) s = take (min m n) s" by (simp add: n)
  then show ?case by blast
qed

lemma strip_patterns_keeps_unmatched:
  assumes "edition_like P" "list_all edition_like ps" "CHR 0x0A \<notin> set s" "unmatched P s"
  shows "unmatched P (strip_patterns ps s)"
proof -
  from strip_patterns_prefix [OF assms(2,3)] obtain n where "strip_patterns ps s = take n s" by blast
  with unmatched_take [OF assms(1,3,4)] show ?thesis by simp
qed

lemma strip_patterns_unmatched:
  "P \<in> set ps \<Longrightarrow> list_all edition_like ps \<Longrightarrow> CHR 0x0A \<notin> set s
   \<Longrightarrow> unmatched P (strip_patterns ps s)"
proof (induction ps arbitrary: s)
  case Nil
  then show ?case by simp
next
  case (Cons Q ps)
  then have Q: "edition_like Q" and ps: "list_all edition_like ps" by simp_all
  from edition_sub_unmatched(2) [OF Q Cons.prems(3)] obtain n where n: "re_sub Q [] s = take n s"
    by blast
  have nl: "CHR 0x0A \<notin> set (re_sub Q [] s)" unfolding n using Cons.prems(3) by (metis in_set_takeD)
  show ?case
  proof (cases "P = Q")
    case True
    from edition_sub_unmatched(1) [OF Q Cons.prems(3)] have "unmatched P (re_sub Q [] s)"
      using True by simp
    from strip_patterns_keeps_unmatched [OF _ ps nl this] Q True show ?thesis by simp
  next
    case False
    with Cons.prems(1) have "P \<in> set ps" by simp
    from Cons.IH [OF this ps nl] show ?thesis by simp
  qed
qed

lemma strip_patterns_fixed:
  "(\<And>P. P \<in> set ps \<Longrightarrow> no_bol P \<and> unmatched P t) \<Longrightarrow> strip_patterns ps t = t"
proof (induction ps)
  case Nil
  then show ?case by simp
next
  case (Cons P ps)
  then have "no_bol P" "unmatched P t" by simp_all
  then have "re_sub P [] t = t" unfolding re_sub_def by (rule unmatched_sub)
  with Cons show ?case by simp
qed

lemma edition_likeI:
  "list_all simple core \<Longrightarrow> rmatch (Seqs core) False [] = [] \<Longrightarrow> edition_like (Seqs (core @ to_end))"
  unfolding edition_like_def by blast

lemma simple_LitI: "simple (LitI w)"
  by (induction w) simp_all

lemma edition_patterns_like: "list_all edition_like edition_patterns"
  unfolding edition_patterns_def list.pred_inject
  by (intro conjI edition_likeI TrueI; simp add: Plus_def Opt_def simple_LitI)

lemma extract_base_title_idem:
  assumes "CHR 0x0A \<notin> set k"
  shows "extract_base_title (extract_base_title k) = extract_base_title k"
proof -
  let ?u = "strip_patterns edition_patterns k"
  let ?t = "strip ?u"
  from strip_patterns_prefix [OF edition_patterns_like assms] obtain n where "?u = take n k" by blast
  then have nlu: "CHR 0x0A \<notin> set ?u" using assms by (metis in_set_takeD)
  have fixed: "no_bol P \<and> unmatched P ?t" if P: "P \<in> set edition_patterns" for P
  proof -
    from P edition_patterns_like have el: "edition_like P" by (simp add: list_all_iff)
    from strip_patterns_unmatched [OF P edition_patterns_like assms] have "unmatched P ?u" .
    from unmatched_strip [OF el nlu this] edition_like_no_bol [OF el] show ?thesis by simp
  qed
  have "strip_patterns edition_patterns ?t = ?t" by (rule strip_patterns_fixed) (rule fixed)
  then show ?thesis by (simp add: extract_base_title_def strip_idem)
qed

lemma star_cls_hd: "\<exists>rest. rmatch (Star (Cls p)) b s = dropWhile p s # rest"
proof (induction s arbitrary: b)
  case Nil
  then show ?case by (simp add: rmatch.simps(10) [of "Cls p" b "[]"])
next
  case (Cons c cs)
  from Cons [of False] obtain rest where "rmatch (Star (Cls p)) False cs = dropWhile p cs # rest"
    by blast
  then show ?case by (simp add: rmatch.simps(10) [of "Cls p" b "c # cs"])
qed

lemma plus_cls:
  "rmatch (Plus (Cls p)) b [] = []"
  "\<not> p c \<Longrightarrow> rmatch (Plus (Cls p)) b (c # cs) = []"
  "p c \<Longrightarrow> \<exists>rest. rmatch (Plus (Cls p)) b (c # cs) = dropWhile p cs # rest"
  using star_cls_hd [of p False cs] by (auto simp: Plus_def)

lemma sub_plus_ws: "re_sub_from (Plus ws) '' '' b s = collapse s"
proof (induction s arbitrary: b rule: collapse.induct)
  case 1
  then show ?case
    by (simp add: re_sub_from.simps [of "Plus ws" "'' ''" b "[]"] plus_cls(1))
next
  case (2 c cs)
  show ?case
  proof (cases "isspace c")
    case True
    from plus_cls(3) [of isspace, OF True, of b cs] obtain rest where
      "rmatch (Plus ws) b (c # cs) = dropWhile isspace cs # rest" by blast
    moreover have "length (dropWhile isspace cs) < length (c # cs)"
      by (simp add: le_imp_less_Suc length_dropWhile_le)
    ultimately show ?thesis using True 2(1) [OF True, of False]
      by (simp add: re_sub_from.simps [of "Plus ws" "'' ''" b "c # cs"])
  next
    case False
    with plus_cls(2) [of isspace c b cs] have "rmatch (Plus ws) b (c # cs) = []"
      by simp
    then show ?thesis using False 2(2) [OF False, of False]
      by (simp add: re_sub_from.simps [of "Plus ws" "'' ''" b "c # cs"])
  qed
qed

lemma sub_spaces: "re_sub spaces_re '' '' s = collapse s"
  by (simp add: re_sub_def spaces_re_def sub_plus_ws)

lemma collapse_space: "c \<in> set (collapse s) \<Longrightarrow> isspace c \<Longrightarrow> c = CHR '' ''"
  by (induction s rule: collapse.induct) (auto split: if_splits)

lemma isspace_newline: "isspace (CHR 0x0A)"
  by (simp add: isspace_def)

lemma collapse_no_newline: "CHR 0x0A \<notin> set (collapse s)"
  using collapse_space [of "CHR 0x0A" s] isspace_newline by auto

lemma normalize_no_newline:
  "CHR 0x0A \<notin> set (merger_normalize x)" "CHR 0x0A \<notin> set (normalize_title x)"
  using set_strip collapse_no_newline
  by (auto simp: merger_normalize_def normalize_title_def Let_def sub_spaces)

text \<open>
  C10: the edition-variant stripper is idempotent on every normalized key, whichever of the
  two normalizers produced it.
\<close>

theorem C10_extract_base_title_idempotent:
  "extract_base_title (extract_base_title (merger_normalize x)) = extract_base_title (merger_normalize x) \<and>
   extract_base_title (extract_base_title (normalize_title x)) = extract_base_title (normalize_title x)"
  using extract_base_title_idem normalize_no_newline by blast

subsection \<open>The clean-up of keys is idempotent\<close>

lemma lower_char_idem: "lower_char (lower_char c) = lower_char c"
  by (auto simp: lower_char_def Let_def)

lemma lower_char_space: "lower_char (CHR '' '') = CHR '' ''"
  by (simp add: lower_char_def)

lemma re_sub_from_set: "set (re_sub_from r repl b s) \<subseteq> set s \<union> set repl"
proof (induction r repl b s rule: re_sub_from.induct)
  case (1 r repl b s)
  show ?case
  proof (cases "rmatch r b s")
    case Nil
    show ?thesis
    proof (cases s)
      case Nil
      with \<open>rmatch r b s = []\<close> show ?thesis by (simp add: re_sub_from.simps [of r repl b "[]"])
    next
      case (Cons c cs)
      with 1(1) [OF Nil Cons] Nil show ?thesis
        by (auto simp: re_sub_from.simps [of r repl b "c # cs"])
    qed
  next
    case (Cons s' rest)
    then have "s' \<in> set (rmatch r b s)" by simp
    from rmatch_set [OF this] have sub: "set s' \<subseteq> set s" .
    show ?thesis
    proof (cases "length s' < length s")
      case True
      with 1(2) [OF Cons True] Cons sub show ?thesis
        by (auto simp: re_sub_from.simps [of r repl b s])
    next
      case False
      show ?thesis
      proof (cases s)
        case Nil
        with Cons False show ?thesis by (simp add: re_sub_from.simps [of r repl b "[]"])
      next
        case (Cons c cs)
        with 1(3) [OF \<open>rmatch r b s = s' # rest\<close> False Cons] \<open>rmatch r b s = s' # rest\<close> False
        show ?thesis by (auto simp: re_sub_from.simps [of r repl b "c # cs"])
      qed
    qed
  qed
qed

lemma re_sub_set: "set (re_sub r repl s) \<subseteq> set s \<union> set repl"
  unfolding re_sub_def by (rule re_sub_from_set)

lemma sub_cls_from: "re_sub_from (Cls p) [] b s = filter (\<lambda>c. \<not> p c) s"
proof (induction s arbitrary: b)
  case Nil
  then show ?case by (simp add: re_sub_from.simps [of "Cls p" "[]" b "[]"])
next
  case (Cons c cs)
  then show ?case by (simp add: re_sub_from.simps [of "Cls p" "[]" b "c # cs"])
qed

lemma sub_punct: "re_sub punct_re [] s = filter (\<lambda>c. isword c \<or> isspace c) s"
  by (simp add: re_sub_def punct_re_def sub_cls_from)

lemma tidy_Cons: "tidy (c # s) \<Longrightarrow> tidy s"
  by (cases s) simp_all

lemma tidy_drop: "tidy s \<Longrightarrow> tidy (drop a s)"
proof (induction a arbitrary: s)
  case 0
  then show ?case by simp
next
  case (Suc a)
  then show ?case by (cases s) (auto dest: tidy_Cons)
qed

lemma tidy_take: "tidy s \<Longrightarrow> tidy (take n s)"
proof (induction s arbitrary: n rule: tidy.induct)
  case 1
  then show ?case by simp
next
  case (2 c)
  then show ?case by (cases n) simp_all
next
  case (3 c d s)
  show ?case
  proof (cases n)
    case 0
    then show ?thesis by simp
  next
    case (Suc m)
    from 3 have ih: "tidy (take m (d # s))" by simp
    show ?thesis
    proof (cases m)
      case 0
      with Suc 3(2) show ?thesis by simp
    next
      case (Suc k)
      with ih \<open>n = Suc m\<close> 3(2) show ?thesis by simp
    qed
  qed
qed

lemma tidy_strip: "tidy s \<Longrightarrow> tidy (strip s)"
  using strip_take_drop [of s] tidy_take tidy_drop by fastforce

lemma collapse_hd: "\<not> isspace c \<Longrightarrow> collapse (c # s) = c # collapse s"
  by simp

lemma tidy_collapse: "tidy (collapse s)"
proof (induction s rule: collapse.induct)
  case 1
  then show ?case by simp
next
  case (2 c cs)
  show ?case
  proof (cases "isspace c")
    case True
    note sp = True
    show ?thesis
    proof (cases "dropWhile isspace cs")
      case Nil
      show ?thesis by (simp add: sp Nil)
    next
      case (Cons d ds)
      have "\<not> isspace (hd (dropWhile isspace cs))" by (rule hd_dropWhile) (simp add: Cons)
      then have nd: "\<not> isspace d" by (simp add: Cons)
      from 2(1) [OF sp] have "tidy (collapse (d # ds))" by (simp add: Cons)
      with nd have "tidy (d # collapse ds)" by simp
      with nd show ?thesis by (simp add: sp Cons)
    qed
  next
    case False
    from 2(2) [OF False] have t: "tidy (collapse cs)" .
    show ?thesis
    proof (cases "collapse cs")
      case Nil
      with False show ?thesis by simp
    next
      case (Cons d ds)
      with False t show ?thesis by simp
    qed
  qed
qed

lemma collapse_tidy: "tidy s \<Longrightarrow> collapse s = s"
proof (induction s rule: tidy.induct)
  case 1
  then show ?case by simp
next
  case (2 c)
  then show ?case by auto
next
  case (3 c d s)
  then show ?case by (cases "isspace c") auto
qed

text \<open>The clean-up that ends both normalizers.\<close>

lemma cleanup_fixed:
  assumes "n = strip (re_sub spaces_re '' '' (re_sub punct_re [] y))"
  shows "strip (re_sub spaces_re '' '' (re_sub punct_re [] n)) = n"
proof -
  let ?f = "filter (\<lambda>c. isword c \<or> isspace c) y"
  have n: "n = strip (collapse ?f)" by (simp add: assms sub_punct sub_spaces)
  have "isspace (CHR '' '')" by (simp add: isspace_def)
  have chars: "isword c \<or> isspace c" if "c \<in> set n" for c
  proof -
    from that set_strip have "c \<in> set (collapse ?f)" unfolding n by blast
    then have "c \<in> set (re_sub spaces_re '' '' ?f)" by (simp add: sub_spaces)
    with re_sub_set have "c \<in> set ?f \<union> set '' ''" by blast
    with \<open>isspace (CHR '' '')\<close> show ?thesis by auto
  qed
  then have p: "re_sub punct_re [] n = n" by (simp add: sub_punct)
  have "tidy n" unfolding n by (rule tidy_strip [OF tidy_collapse])
  then have w: "re_sub spaces_re '' '' n = n" by (simp add: sub_spaces collapse_tidy)
  have "strip n = n" unfolding n by (rule strip_idem)
  with p w show ?thesis by simp
qed

lemma lower_fixed:
  assumes "set n \<subseteq> set (lower x) \<union> {CHR '' ''}"
  shows "lower n = n"
proof -
  have "lower_char c = c" if "c \<in> set n" for c
  proof -
    from that assms have "c \<in> set (lower x) \<or> c = CHR '' ''" by auto
    then show ?thesis by (auto simp: lower_def lower_char_idem lower_char_space)
  qed
  then show ?thesis by (simp add: lower_def map_idI)
qed

lemma merger_normalize_chars: "set (merger_normalize x) \<subseteq> set (lower x) \<union> {CHR '' ''}"
proof -
  let ?a = "strip (lower x)"
  let ?b = "re_sub merger_article_re [] ?a"
  let ?c = "re_sub punct_re [] ?b"
  let ?d = "re_sub spaces_re '' '' ?c"
  have "set ?a \<subseteq> set (lower x)" by (rule set_strip)
  moreover have "set ?b \<subseteq> set ?a" using re_sub_set [of merger_article_re "[]" ?a] by simp
  moreover have "set ?c \<subseteq> set ?b" using re_sub_set [of punct_re "[]" ?b] by simp
  moreover have "set ?d \<subseteq> set ?c \<union> {CHR '' ''}" using re_sub_set [of spaces_re "'' ''" ?c] by simp
  moreover have "set (strip ?d) \<subseteq> set ?d" by (rule set_strip)
  ultimately show ?thesis unfolding merger_normalize_def Let_def by blast
qed

lemma normalize_title_chars: "set (normalize_title x) \<subseteq> set (lower x) \<union> {CHR '' ''}"
proof -
  let ?a = "strip (lower x)"
  let ?b1 = "re_sub dark_tower_re [] ?a"
  let ?b2 = "re_sub tour_sombre_re [] ?b1"
  let ?b3 = "re_sub gwendy_re [] ?b2"
  let ?b = "re_sub article_re [] ?b3"
  let ?c = "re_sub punct_re [] ?b"
  let ?d = "re_sub spaces_re '' '' ?c"
  have "set ?a \<subseteq> set (lower x)" by (rule set_strip)
  moreover have "set ?b1 \<subseteq> set ?a" using re_sub_set [of dark_tower_re "[]" ?a] by simp
  moreover have "set ?b2 \<subseteq> set ?b1" using re_sub_set [of tour_sombre_re "[]" ?b1] by simp
  moreover have "set ?b3 \<subseteq> set ?b2" using re_sub_set [of gwendy_re "[]" ?b2] by simp
  moreover have "set ?b \<subseteq> set ?b3" using re_sub_set [of article_re "[]" ?b3] by simp
  moreover have "set ?c \<subseteq> set ?b" using re_sub_set [of punct_re "[]" ?b] by simp
  moreover have "set ?d \<subseteq> set ?c \<union> {CHR '' ''}" using re_sub_set [of spaces_re "'' ''" ?c] by simp
  moreover have "set (strip ?d) \<subseteq> set ?d" by (rule set_strip)
  ultimately show ?thesis unfolding normalize_title_def Let_def by blast
qed

lemma merger_normalize_fixed:
  assumes "re_sub merger_article_re [] (merger_normalize x) = merger_normalize x"
  shows "merger_normalize (merger_normalize x) = merger_normalize x"
proof -
  let ?n = "merger_normalize x"
  have l: "lower ?n = ?n" by (rule lower_fixed [OF merger_normalize_chars])
  have s: "strip ?n = ?n" by (simp add: merger_normalize_def Let_def strip_idem)
  have c: "strip (re_sub spaces_re '' '' (re_sub punct_re [] ?n)) = ?n"
    by (rule cleanup_fixed) (simp add: merger_normalize_def Let_def)
  have "merger_normalize ?n = strip (re_sub spaces_re '' '' (re_sub punct_re []
          (re_sub merger_article_re [] (strip (lower ?n)))))"
    by (simp add: merger_normalize_def [of ?n] Let_def)
  also have "\<dots> = ?n" by (simp only: l s assms c)
  finally show ?thesis .
qed

lemma normalize_title_fixed:
  assumes "re_sub dark_tower_re [] (normalize_title x) = normalize_title x"
    "re_sub tour_sombre_re [] (normalize_title x) = normalize_title x"
    "re_sub gwendy_re [] (normalize_title x) = normalize_title x"
    "re_sub article_re [] (normalize_title x) = normalize_title x"
  shows "normalize_title (normalize_title x) = normalize_title x"
proof -
  let ?n = "normalize_title x"
  have l: "lower ?n = ?n" by (rule lower_fixed [OF normalize_title_chars])
  have s: "strip ?n = ?n" by (simp add: normalize_title_def Let_def strip_idem)
  have c: "strip (re_sub spaces_re '' '' (re_sub punct_re [] ?n)) = ?n"
    by (rule cleanup_fixed) (simp add: normalize_title_def Let_def)
  have "normalize_title ?n = strip (re_sub spaces_re '' '' (re_sub punct_re []
          (re_sub article_re [] (re_sub gwendy_re [] (re_sub tour_sombre_re []
            (re_sub dark_tower_re [] (strip (lower ?n))))))))"
    by (simp add: normalize_title_def [of ?n] Let_def)
  also have "\<dots> = ?n" by (simp only: l s assms c)
  finally show ?thesis .
qed

subsection \<open>What the two normalizers strip\<close>

lemma re_sub_from_match:
  "rmatch r b s = s' # rest \<Longrightarrow> length s' < length s
   \<Longrightarrow> re_sub_from r repl b s = repl @ re_sub_from r repl False s'"
  by (simp add: re_sub_from.simps [of r repl b s])

lemma sub_bol_false: "re_sub_from (Seq Bol q) repl False s = s"
proof (induction s)
  case Nil
  then show ?case by (simp add: re_sub_from.simps [of "Seq Bol q" repl False "[]"])
next
  case (Cons c cs)
  then show ?case by (simp add: re_sub_from.simps [of "Seq Bol q" repl False "c # cs"])
qed

lemma rmatch_Lit: "rmatch (Lit w) b s = (if starts_with w s then [drop (length w) s] else [])"
proof (induction w arbitrary: b s)
  case Nil
  then show ?case by simp
next
  case (Cons c cs)
  then show ?case by (cases s) simp_all
qed

lemma article_none:
  "\<not> article_at art s \<Longrightarrow>
     concat (map (\<lambda>s'. rmatch (Plus ws) (f s') s') (rmatch (Lit art) b s)) = []"
proof -
  assume no: "\<not> article_at art s"
  show ?thesis
  proof (cases "starts_with art s")
    case False
    then show ?thesis by (simp add: rmatch_Lit)
  next
    case True
    show ?thesis
    proof (cases "drop (length art) s")
      case Nil
      with True show ?thesis by (simp add: rmatch_Lit plus_cls(1))
    next
      case (Cons c cs)
      with no True have "\<not> isspace c" by (simp add: article_at_def)
      with True Cons show ?thesis by (simp add: rmatch_Lit plus_cls(2))
    qed
  qed
qed

lemma article_some:
  assumes "article_at art s"
  shows "\<exists>rest. concat (map (\<lambda>s'. rmatch (Plus ws) (f s') s') (rmatch (Lit art) b s))
           = dropWhile isspace (drop (length art) s) # rest"
proof -
  from assms have st: "starts_with art s" by (simp add: article_at_def)
  from assms obtain c cs where d: "drop (length art) s = c # cs" and c: "isspace c"
    by (cases "drop (length art) s") (simp_all add: article_at_def)
  from plus_cls(3) [of isspace, OF c, of "f (c # cs)" cs] obtain rest where
    "rmatch (Plus ws) (f (c # cs)) (c # cs) = dropWhile isspace cs # rest" by blast
  with st d c show ?thesis by (simp add: rmatch_Lit)
qed

lemma drop_article_shorter:
  assumes "article_at art s"
  shows "length (dropWhile isspace (drop (length art) s)) < length s"
proof -
  from assms obtain c cs where d: "drop (length art) s = c # cs" and c: "isspace c"
    by (cases "drop (length art) s") (simp_all add: article_at_def)
  have "length (dropWhile isspace cs) \<le> length cs" by (rule length_dropWhile_le)
  moreover have "length (c # cs) \<le> length s" by (simp only: d [symmetric]) simp
  ultimately show ?thesis using c by (simp add: d)
qed

lemma re_sub_from_nomatch:
  "rmatch r b s = [] \<Longrightarrow>
     re_sub_from r repl b s = (case s of [] \<Rightarrow> [] | c # cs \<Rightarrow> c # re_sub_from r repl False cs)"
  by (simp add: re_sub_from.simps [of r repl b s])

lemma sub_merger_article:
  "re_sub merger_article_re [] s = drop_article [''the'', ''a'', ''an''] s"
proof -
  let ?q = "Seq (Alt (Lit ''the'') (Alt (Lit ''a'') (Lit ''an''))) (Plus ws)"
  let ?f = "\<lambda>s'. length s' = length s"
  let ?P = "\<lambda>art. concat (map (\<lambda>s'. rmatch (Plus ws) (?f s') s') (rmatch (Lit art) True s))"
  have re: "merger_article_re = Seq Bol ?q" by (simp add: merger_article_re_def)
  have m: "rmatch (Seq Bol ?q) True s = ?P ''the'' @ ?P ''a'' @ ?P ''an''" by simp
  have tail: "re_sub_from (Seq Bol ?q) [] False t = t" for t by (rule sub_bol_false)
  have hit: "re_sub_from (Seq Bol ?q) [] True s = dropWhile isspace (drop (length art) s)"
    if "article_at art s" "rmatch (Seq Bol ?q) True s = dropWhile isspace (drop (length art) s) # rest"
    for art rest
    using re_sub_from_match [OF that(2) drop_article_shorter [OF that(1)], of "[]"] tail by simp
  show ?thesis
  proof (cases "article_at ''the'' s")
    case True
    from article_some [OF True, of ?f True] obtain rest where
      "?P ''the'' = dropWhile isspace (drop (length ''the'') s) # rest" by blast
    then have "rmatch (Seq Bol ?q) True s
        = dropWhile isspace (drop (length ''the'') s) # (rest @ ?P ''a'' @ ?P ''an'')"
      by (simp only: m append_Cons)
    from hit [OF True this] True show ?thesis by (simp add: re_sub_def re)
  next
    case nthe: False
    from article_none [OF nthe, of ?f True] have n1: "?P ''the'' = []" .
    show ?thesis
    proof (cases "article_at ''a'' s")
      case True
      from article_some [OF True, of ?f True] obtain rest where
        "?P ''a'' = dropWhile isspace (drop (length ''a'') s) # rest" by blast
      then have "rmatch (Seq Bol ?q) True s
          = dropWhile isspace (drop (length ''a'') s) # (rest @ ?P ''an'')"
        by (simp only: m n1 append_Cons append_Nil)
      from hit [OF True this] True nthe show ?thesis by (simp add: re_sub_def re)
    next
      case na: False
      from article_none [OF na, of ?f True] have n2: "?P ''a'' = []" .
      show ?thesis
      proof (cases "article_at ''an'' s")
        case True
        from article_some [OF True, of ?f True] obtain rest where
          "?P ''an'' = dropWhile isspace (drop (length ''an'') s) # rest" by blast
        then have "rmatch (Seq Bol ?q) True s
            = dropWhile isspace (drop (length ''an'') s) # rest"
          by (simp only: m n1 n2 append_Nil)
        from hit [OF True this] True nthe na show ?thesis by (simp add: re_sub_def re)
      next
        case nan: False
        from article_none [OF nan, of ?f True] have n3: "?P ''an'' = []" .
        have none: "rmatch (Seq Bol ?q) True s = []" by (simp only: m n1 n2 n3 append_Nil)
        have "re_sub_from (Seq Bol ?q) [] True s = s"
        proof (cases s)
          case Nil
          from re_sub_from_nomatch [OF none, of "[]"] show ?thesis by (simp only: Nil list.case)
        next
          case (Cons c cs)
          from re_sub_from_nomatch [OF none, of "[]"] show ?thesis
            by (simp only: Cons list.case tail [of cs])
        qed
        with nthe na nan show ?thesis by (simp add: re_sub_def re)
      qed
    qed
  qed
qed

lemma merger_normalize_cleanup:
  "merger_normalize x = cleanup (drop_article [''the'', ''a'', ''an''] (strip (lower x)))"
  by (simp add: merger_normalize_def Let_def sub_merger_article sub_punct sub_spaces cleanup_def)

lemma drop_article_none: "\<not> has_article arts s \<Longrightarrow> drop_article arts s = s"
  by (induction arts) (simp_all add: has_article_def)

lemma word_not_space: "isword c \<Longrightarrow> \<not> isspace c"
  by (auto simp: isword_def isspace_def isalpha_def isdigit_def Let_def)

lemma filter_dropWhile: "(\<And>c. P c \<Longrightarrow> \<not> Q c) \<Longrightarrow> filter P (dropWhile Q s) = filter P s"
  by (induction s) auto

lemma filter_word_strip: "filter isword (strip s) = filter isword s"
  by (simp add: strip_def rev_filter [symmetric] filter_dropWhile word_not_space)

lemma filter_word_collapse: "filter isword (collapse s) = filter isword s"
proof (induction s rule: collapse.induct)
  case 1
  then show ?case by simp
next
  case (2 c cs)
  have sp: "\<not> isword (CHR '' '')" using word_not_space [of "CHR '' ''"] by (auto simp: isspace_def)
  show ?case
  proof (cases "isspace c")
    case True
    then have "\<not> isword c" using word_not_space by blast
    with True 2(1) sp show ?thesis by (simp add: filter_dropWhile word_not_space)
  next
    case False
    with 2(2) show ?thesis by simp
  qed
qed

lemma filter_word_cleanup: "filter isword (cleanup s) = filter isword s"
proof -
  have "filter isword (filter (\<lambda>c. isword c \<or> isspace c) s) = filter isword s"
    by (induction s) simp_all
  then show ?thesis by (simp add: cleanup_def filter_word_strip filter_word_collapse)
qed

lemma other_prefix_no_article:
  assumes "list_ex (\<lambda>p. starts_with p s)
     [''dark'', ''la'', ''gwendy'', ''le'', ''les'', [CHR ''l'', CHR 0x27], ''un'', ''une'']"
  shows "\<not> has_article [''the'', ''a'', ''an''] s"
proof (cases s)
  case Nil
  with assms show ?thesis by simp
next
  case (Cons c cs)
  with assms have "c \<in> {CHR ''d'', CHR ''l'', CHR ''g'', CHR ''u''}" by auto
  with Cons show ?thesis by (auto simp: has_article_def article_at_def)
qed

lemma merger_keeps_dark_tower:
  "merger_normalize ''The Dark Tower III: The Waste Lands'' = ''dark tower iii the waste lands''"
  by code_simp

lemma merger_keeps_gwendy: "merger_normalize ''Gwendy's Button Box'' = ''gwendys button box''"
  by code_simp

lemma merger_keeps_le: "merger_normalize ''Le Fleau'' = ''le fleau''"
  by code_simp

lemma workflow_strips:
  "normalize_title ''The Dark Tower III: The Waste Lands'' = ''waste lands''"
  "normalize_title ''Gwendy's Button Box'' = ''button box''"
  "normalize_title ''Le Fleau'' = ''fleau''"
  by code_simp+

lemma a_to_z:
  "normalize_title ''The A to Z'' = ''a to z''" "normalize_title ''a to z'' = ''to z''"
  "merger_normalize ''The A to Z'' = ''a to z''" "merger_normalize ''a to z'' = ''to z''"
  by code_simp+

lemma shining_keys:
  "normalize_title ''The Shining'' = ''shining''" "merger_normalize ''The Shining'' = ''shining''"
  "re_sub dark_tower_re [] ''shining'' = ''shining''"
  "re_sub tour_sombre_re [] ''shining'' = ''shining''"
  "re_sub gwendy_re [] ''shining'' = ''shining''"
  "re_sub article_re [] ''shining'' = ''shining''"
  "re_sub merger_article_re [] ''shining'' = ''shining''"
  by code_simp+

lemma fleau_stand_facts:
  "strip (lower ''Le Fleau'') = ''le fleau''" "cleanup ''le fleau'' = ''le fleau''"
  "strip (lower ''The Stand'') = ''the stand''"
  "cleanup ''stand'' = ''stand''"
  by code_simp+

text \<open>
  C5, as stated: the normalization that the merger uses for its keys strips the series prefixes,
  the possessive marker and an article of either language. It fails: \<open>_normalize\<close> keeps the
  series prefix of \<open>The Dark Tower III: The Waste Lands\<close>, the marker of
  \<open>Gwendy's Button Box\<close> and the French article of \<open>Le Fleau\<close>.
\<close>

theorem C5_counterexample:
  "merger_normalize ''The Dark Tower III: The Waste Lands'' = ''dark tower iii the waste lands'' \<and>
   merger_normalize ''Gwendy's Button Box'' = ''gwendys button box'' \<and>
   merger_normalize ''Le Fleau'' = ''le fleau''"
  using merger_keeps_dark_tower merger_keeps_gwendy merger_keeps_le by simp

text \<open>
  C5, amended: for every title \<open>x\<close>, the merger's \<open>_normalize\<close> lowercases and trims \<open>x\<close>,
  removes one leading English article (\<open>the\<close>, \<open>a\<close> or \<open>an\<close>, with the whitespace that follows
  it) if there is one, and then only removes the punctuation, collapses the whitespace and
  trims. So the word characters of the key are those of the lowercased title after that
  article, in the same order; a title without a leading English article loses no word
  character at all; and a title whose lowercased, trimmed form starts with a series prefix
  (\<open>dark\<close>, \<open>la\<close>), with \<open>gwendy\<close> or with a French article (\<open>le\<close>, \<open>la\<close>, \<open>les\<close>, \<open>l'\<close>, \<open>un\<close>,
  \<open>une\<close>) keeps it. The series prefixes, the possessive marker and the French articles are
  stripped by \<open>normalize_title\<close> of the workflow.
\<close>

theorem C5_merger_normalize:
  "merger_normalize x = cleanup (drop_article [''the'', ''a'', ''an''] (strip (lower x))) \<and>
   filter isword (merger_normalize x)
     = filter isword (drop_article [''the'', ''a'', ''an''] (strip (lower x))) \<and>
   (\<not> has_article [''the'', ''a'', ''an''] (strip (lower x)) \<longrightarrow>
      merger_normalize x = cleanup (strip (lower x)) \<and>
      filter isword (merger_normalize x) = filter isword (lower x)) \<and>
   (list_ex (\<lambda>p. starts_with p (strip (lower x)))
      [''dark'', ''la'', ''gwendy'', ''le'', ''les'', [CHR ''l'', CHR 0x27], ''un'', ''une'']
      \<longrightarrow> merger_normalize x = cleanup (strip (lower x))) \<and>
   normalize_title ''The Dark Tower III: The Waste Lands'' = ''waste lands'' \<and>
   normalize_title ''Gwendy's Button Box'' = ''button box'' \<and>
   normalize_title ''Le Fleau'' = ''fleau''"
proof -
  let ?s = "strip (lower x)"
  let ?arts = "[''the'', ''a'', ''an'']"
  have a: "merger_normalize x = cleanup (drop_article ?arts ?s)" by (rule merger_normalize_cleanup)
  have b: "filter isword (merger_normalize x) = filter isword (drop_article ?arts ?s)"
    by (simp only: a filter_word_cleanup)
  have c: "merger_normalize x = cleanup ?s \<and> filter isword (merger_normalize x) = filter isword (lower x)"
    if "\<not> has_article ?arts ?s"
    using a b drop_article_none [OF that] by (simp only: filter_word_strip)
  have d: "merger_normalize x = cleanup ?s"
    if "list_ex (\<lambda>p. starts_with p ?s)
          [''dark'', ''la'', ''gwendy'', ''le'', ''les'', [CHR ''l'', CHR 0x27], ''un'', ''une'']"
    using c [OF other_prefix_no_article [OF that]] by (rule conjunct1)
  from a b c d workflow_strips show ?thesis by blast
qed

theorem C5_merger_normalize_witness:
  "\<not> has_article [''the'', ''a'', ''an''] (strip (lower ''Le Fleau'')) \<and>
   list_ex (\<lambda>p. starts_with p (strip (lower ''Le Fleau'')))
     [''dark'', ''la'', ''gwendy'', ''le'', ''les'', [CHR ''l'', CHR 0x27], ''un'', ''une''] \<and>
   merger_normalize ''Le Fleau'' = cleanup (strip (lower ''Le Fleau'')) \<and>
   cleanup (strip (lower ''Le Fleau'')) = ''le fleau'' \<and>
   has_article [''the'', ''a'', ''an''] (strip (lower ''The Stand'')) \<and>
   merger_normalize ''The Stand'' = ''stand''"
  using C5_merger_normalize [of "''Le Fleau''"] C5_merger_normalize [of "''The Stand''"]
  by (simp add: fleau_stand_facts has_article_def article_at_def isspace_def)

text \<open>
  C6, as stated: \<open>normalize(normalize(x)) = normalize(x)\<close> for every title, for both
  normalizers. It fails on \<open>The A to Z\<close>: each normalizer strips one leading article, the
  key \<open>a to z\<close> starts with another one, and a second pass strips it too.
\<close>

theorem C6_counterexample:
  "normalize_title (normalize_title ''The A to Z'') \<noteq> normalize_title ''The A to Z'' \<and>
   merger_normalize (merger_normalize ''The A to Z'') \<noteq> merger_normalize ''The A to Z''"
  by (simp add: a_to_z)

text \<open>
  C6, amended: for every title \<open>x\<close> whose key does not itself start with something the
  normalizer strips (none of its prefix substitutions changes the key), normalizing the key
  again gives the key: for \<open>normalize_title\<close> with its four substitutions, for the merger's
  \<open>_normalize\<close> with its article substitution.
\<close>

theorem C6_idempotent_without_prefix:
  "(re_sub dark_tower_re [] (normalize_title x) = normalize_title x \<and>
    re_sub tour_sombre_re [] (normalize_title x) = normalize_title x \<and>
    re_sub gwendy_re [] (normalize_title x) = normalize_title x \<and>
    re_sub article_re [] (normalize_title x) = normalize_title x
      \<longrightarrow> normalize_title (normalize_title x) = normalize_title x) \<and>
   (re_sub merger_article_re [] (merger_normalize x) = merger_normalize x
      \<longrightarrow> merger_normalize (merger_normalize x) = merger_normalize x)"
  using normalize_title_fixed [of x] merger_normalize_fixed [of x] by blast

theorem C6_idempotent_without_prefix_witness:
  "re_sub dark_tower_re [] (normalize_title ''The Shining'') = normalize_title ''The Shining'' \<and>
   re_sub tour_sombre_re [] (normalize_title ''The Shining'') = normalize_title ''The Shining'' \<and>
   re_sub gwendy_re [] (normalize_title ''The Shining'') = normalize_title ''The Shining'' \<and>
   re_sub article_re [] (normalize_title ''The Shining'') = normalize_title ''The Shining'' \<and>
   normalize_title (normalize_title ''The Shining'') = normalize_title ''The Shining'' \<and>
   re_sub merger_article_re [] (merger_normalize ''The Shining'') = merger_normalize ''The Shining'' \<and>
   merger_normalize (merger_normalize ''The Shining'') = merger_normalize ''The Shining''"
  using C6_idempotent_without_prefix [of "''The Shining''"] by (simp add: shining_keys)

subsection \<open>The field-level merge\<close>

lemma distinct_dict_set: "distinct (map fst d) \<Longrightarrow> distinct (map fst (dict_set d k v))"
proof (induction d k v rule: dict_set.induct)
  case (1 k v)
  then show ?case by simp
next
  case (2 k' v' d k v)
  have "fst ` set (dict_set d k v) \<subseteq> insert k (fst ` set d)"
    by (induction d k v rule: dict_set.induct) auto
  with 2 show ?case by auto
qed

lemma merge_item_distinct:
  "merge_item d item = Inr d' \<Longrightarrow> distinct (map fst d) \<Longrightarrow> distinct (map fst d')"
  by (cases item) (auto simp: distinct_dict_set split: option.splits if_splits prod.splits)

lemma merge_items_distinct:
  "merge_items d items = Inr d' \<Longrightarrow> distinct (map fst d) \<Longrightarrow> distinct (map fst d')"
proof (induction items arbitrary: d)
  case Nil
  then show ?case by simp
next
  case (Cons item items)
  from Cons.prems(1) obtain d1 where s1: "merge_item d item = Inr d1"
    and s2: "merge_items d1 items = Inr d'" by (auto split: sum.splits)
  from Cons.IH [OF s2 merge_item_distinct [OF s1 Cons.prems(2)]] show ?case .
qed

lemma merge_item_other:
  "merge_item d (k, v) = Inr d' \<Longrightarrow> f \<noteq> k \<Longrightarrow> map_of d' f = map_of d f"
  by (auto simp: map_of_dict_set split: option.splits if_splits prod.splits)

lemma merge_items_other:
  "merge_items d items = Inr d' \<Longrightarrow> f \<notin> fst ` set items \<Longrightarrow> map_of d' f = map_of d f"
proof (induction items arbitrary: d)
  case Nil
  then show ?case by simp
next
  case (Cons item items)
  obtain k v where item: "item = (k, v)" by (cases item)
  from Cons.prems(1) obtain d1 where s1: "merge_item d (k, v) = Inr d1"
    and s2: "merge_items d1 items = Inr d'" by (auto simp: item split: sum.splits)
  from Cons.prems(2) have "f \<noteq> k" "f \<notin> fst ` set items" by (auto simp: item)
  with merge_item_other [OF s1] Cons.IH [OF s2] show ?case by simp
qed

lemma merge_item_field:
  "merge_item d (f, w) = Inr d' \<Longrightarrow> f \<noteq> ''Raw_Info'' \<Longrightarrow>
   map_of d' f = (case map_of d f of
                    Some v \<Rightarrow> if truthy v then Some v else Some w
                  | None \<Rightarrow> Some w)"
  by (auto simp: map_of_dict_set split: option.splits if_splits prod.splits)

lemma merge_items_field:
  "merge_items d items = Inr d' \<Longrightarrow> distinct (map fst items) \<Longrightarrow> f \<noteq> ''Raw_Info'' \<Longrightarrow>
   map_of d' f = (case map_of d f of
                    Some v \<Rightarrow> if truthy v then Some v
                              else (case map_of items f of Some w \<Rightarrow> Some w | None \<Rightarrow> Some v)
                  | None \<Rightarrow> map_of items f)"
proof (induction items arbitrary: d)
  case Nil
  then show ?case by (simp split: option.splits)
next
  case (Cons item items)
  obtain k w where item: "item = (k, w)" by (cases item)
  from Cons.prems(1) obtain d1 where s1: "merge_item d (k, w) = Inr d1"
    and s2: "merge_items d1 items = Inr d'" by (auto simp: item split: sum.splits)
  from Cons.prems(2) have dist: "distinct (map fst items)" and kn: "k \<notin> fst ` set items"
    by (auto simp: item)
  show ?case
  proof (cases "k = f")
    case True
    with kn merge_items_other [OF s2] have "map_of d' f = map_of d1 f" by simp
    with merge_item_field [OF s1 [unfolded True] Cons.prems(3)] True show ?thesis
      by (simp add: item split: option.splits)
  next
    case False
    with merge_item_other [OF s1, of f] have d1: "map_of d1 f = map_of d f" by simp
    have m: "map_of (item # items) f = map_of items f" using False by (simp add: item)
    show ?thesis unfolding m using Cons.IH [OF s2 dist Cons.prems(3)] by (simp only: d1)
  qed
qed

lemma merge_item_note:
  assumes "merge_item d (''Raw_Info'', w) = Inr d'"
  shows "note_len d' = max (note_len d) (val_len w)"
    and "map_of d' ''Raw_Info'' = map_of d ''Raw_Info'' \<or> map_of d' ''Raw_Info'' = Some w"
  using assms
  by (auto simp: map_of_dict_set note_len_def val_len_def
      split: option.splits if_splits prod.splits pyval.splits)

lemma note_len_cong: "map_of a ''Raw_Info'' = map_of b ''Raw_Info'' \<Longrightarrow> note_len a = note_len b"
  by (simp add: note_len_def)

lemma title_key_cong: "map_of a ''Titre_VO'' = map_of b ''Titre_VO'' \<Longrightarrow> title_key a = title_key b"
  by (simp add: title_key_def)

lemma note_len_Cons:
  "note_len ((''Raw_Info'', w) # items) = val_len w"
  "k \<noteq> ''Raw_Info'' \<Longrightarrow> note_len ((k, w) # items) = note_len items"
  by (auto simp: note_len_def val_len_def split: pyval.splits)

lemma merge_items_note:
  "merge_items d items = Inr d' \<Longrightarrow> distinct (map fst items) \<Longrightarrow>
   note_len d' = max (note_len d) (note_len items) \<and>
   (map_of d' ''Raw_Info'' = map_of d ''Raw_Info'' \<or> map_of d' ''Raw_Info'' = map_of items ''Raw_Info'')"
proof (induction items arbitrary: d)
  case Nil
  then show ?case by (simp add: note_len_def)
next
  case (Cons item items)
  obtain k w where item: "item = (k, w)" by (cases item)
  from Cons.prems(1) obtain d1 where s1: "merge_item d (k, w) = Inr d1"
    and s2: "merge_items d1 items = Inr d'" by (auto simp: item split: sum.splits)
  from Cons.prems(2) have dist: "distinct (map fst items)" and kn: "k \<notin> fst ` set items"
    by (auto simp: item)
  show ?case
  proof (cases "k = ''Raw_Info''")
    case True
    with kn merge_items_other [OF s2] have same: "map_of d' ''Raw_Info'' = map_of d1 ''Raw_Info''"
      by simp
    from merge_item_note [OF s1 [unfolded True]]
    have n1: "note_len d1 = max (note_len d) (val_len w)"
      and m1: "map_of d1 ''Raw_Info'' = map_of d ''Raw_Info'' \<or> map_of d1 ''Raw_Info'' = Some w"
      by simp_all
    have "note_len d' = max (note_len d) (note_len (item # items))"
      using note_len_cong [OF same] n1 by (simp add: item True note_len_Cons(1))
    moreover have "map_of d' ''Raw_Info'' = map_of d ''Raw_Info'' \<or>
        map_of d' ''Raw_Info'' = map_of (item # items) ''Raw_Info''"
      using m1 same by (simp add: item True)
    ultimately show ?thesis by simp
  next
    case False
    with merge_item_other [OF s1, of "''Raw_Info''"]
    have d1: "map_of d1 ''Raw_Info'' = map_of d ''Raw_Info''" by simp
    from Cons.IH [OF s2 dist] have
      "note_len d' = max (note_len d1) (note_len items)"
      "map_of d' ''Raw_Info'' = map_of d1 ''Raw_Info'' \<or> map_of d' ''Raw_Info'' = map_of items ''Raw_Info''"
      by simp_all
    with note_len_cong [OF d1] d1 False show ?thesis by (simp add: item note_len_Cons(2))
  qed
qed

lemma merge_source_append:
  "merge_source en (xs @ ys) st =
     (case merge_source en xs st of Inl e \<Rightarrow> Inl e | Inr st' \<Rightarrow> merge_source en ys st')"
  by (induction xs arbitrary: st) (simp_all split: sum.splits)

lemma merge_sources_concat: "merge_sources en srcs st = merge_source en (concat srcs) st"
  by (induction srcs arbitrary: st) (simp_all add: merge_source_append split: sum.splits)

lemma map_of_unique:
  "distinct (map fst ab) \<Longrightarrow> (k, a) \<in> set ab \<Longrightarrow> (k, b) \<in> set ab \<Longrightarrow> a = b"
  by (metis map_of_is_SomeI option.inject)

subsection \<open>One record per key, with the longest note\<close>

lemma merge_invD:
  assumes "merge_inv h0 en (h, ab)"
  shows "distinct (map fst ab)"
    and "\<And>k a. (k, a) \<in> set ab \<Longrightarrow> title_key (h a) = Some k"
    and "\<And>k a. (k, a) \<in> set ab \<Longrightarrow> map_of (h a) ''Titre_VO'' = map_of (h0 a) ''Titre_VO''"
    and "\<And>k a. (k, a) \<in> set ab \<Longrightarrow> \<not> is_existing k en"
    and "\<And>a. a \<notin> snd ` set ab \<Longrightarrow> h a = h0 a"
  using assms by (auto simp: merge_inv_def)

lemma merge_inv_title_key:
  assumes "merge_inv h0 en (h, ab)"
  shows "title_key (h a) = title_key (h0 a)"
proof (cases "a \<in> snd ` set ab")
  case True
  then obtain k where "(k, a) \<in> set ab" by force
  from merge_invD(3) [OF assms this] show ?thesis by (rule title_key_cong)
next
  case False
  with merge_invD(5) [OF assms] show ?thesis by simp
qed

lemma merge_inv2D:
  assumes "merge_inv2 h0 en processed (h, ab)"
  shows "merge_inv h0 en (h, ab)"
    and "\<And>a. distinct (map fst (h a))"
    and "\<And>a k. a \<in> set processed \<Longrightarrow> title_key (h0 a) = Some k \<Longrightarrow> \<not> is_existing k en
           \<Longrightarrow> k \<in> fst ` set ab"
    and "\<And>k e. (k, e) \<in> set ab \<Longrightarrow> e \<in> set processed"
    and "\<And>k e a. (k, e) \<in> set ab \<Longrightarrow> a \<in> set processed \<Longrightarrow> title_key (h0 a) = Some k
           \<Longrightarrow> note_len (h0 a) \<le> note_len (h e)"
    and "\<And>k e. (k, e) \<in> set ab \<Longrightarrow>
           \<exists>a \<in> set processed. title_key (h0 a) = Some k \<and>
              map_of (h e) ''Raw_Info'' = map_of (h0 a) ''Raw_Info''"
  using assms unfolding merge_inv2_def Let_def prod.case by blast+

lemma merge_inv2I:
  assumes "merge_inv h0 en (h, ab)"
    and "\<And>a. distinct (map fst (h a))"
    and "\<And>a k. a \<in> set processed \<Longrightarrow> title_key (h0 a) = Some k \<Longrightarrow> \<not> is_existing k en
           \<Longrightarrow> k \<in> fst ` set ab"
    and "\<And>k e. (k, e) \<in> set ab \<Longrightarrow> e \<in> set processed"
    and "\<And>k e a. (k, e) \<in> set ab \<Longrightarrow> a \<in> set processed \<Longrightarrow> title_key (h0 a) = Some k
           \<Longrightarrow> note_len (h0 a) \<le> note_len (h e)"
    and "\<And>k e. (k, e) \<in> set ab \<Longrightarrow>
           \<exists>a \<in> set processed. title_key (h0 a) = Some k \<and>
              map_of (h e) ''Raw_Info'' = map_of (h0 a) ''Raw_Info''"
  shows "merge_inv2 h0 en processed (h, ab)"
  unfolding merge_inv2_def Let_def prod.case using assms by blast

lemma merge_book_cases:
  assumes "merge_book en book (h, ab) = Inr st'"
  obtains
    (skip) "st' = (h, ab)"
      "\<And>key. title_key (h book) = Some key \<Longrightarrow> is_existing key en"
  | (add) key where "title_key (h book) = Some key" "\<not> is_existing key en"
      "map_of ab key = None" "st' = (h, ab @ [(key, book)])"
  | (fold) key e dnew where "title_key (h book) = Some key" "\<not> is_existing key en"
      "map_of ab key = Some e" "merge_items (h e) (h book) = Inr dnew" "st' = (h(e := dnew), ab)"
proof (cases "title_key (h book)")
  case None
  then have "st' = (h, ab)" using assms
    by (auto simp: merge_book_def title_key_def Let_def split: option.splits pyval.splits if_splits)
  with None skip show ?thesis by simp
next
  case (Some key)
  from title_key_truthy [OF Some] obtain t where
    t: "map_of (h book) ''Titre_VO'' = Some (PStr t)" "t \<noteq> []" "merger_normalize t = key" by blast
  show ?thesis
  proof (cases "is_existing key en")
    case True
    with t assms have "st' = (h, ab)" by (simp add: merge_book_def Let_def)
    with True Some skip show ?thesis by simp
  next
    case nex: False
    show ?thesis
    proof (cases "map_of ab key")
      case None
      with nex t assms have "st' = (h, ab @ [(key, book)])" by (simp add: merge_book_def Let_def)
      with Some nex None add show ?thesis by blast
    next
      case (Some e)
      with nex t assms obtain dnew where "merge_items (h e) (h book) = Inr dnew"
        "st' = (h(e := dnew), ab)"
        by (auto simp: merge_book_def merge_book_data_def Let_def split: sum.splits)
      with \<open>title_key (h book) = Some key\<close> nex Some fold show ?thesis by blast
    qed
  qed
qed

lemma merge_book_inv2:
  assumes step: "merge_book en book (h, ab) = Inr st'"
    and inv: "merge_inv2 h0 en processed (h, ab)"
  shows "merge_inv2 h0 en (processed @ [book]) st'"
proof -
  note I = merge_inv2D(1) [OF inv]
  note wf = merge_inv2D(2) [OF inv]
  note J1 = merge_inv2D(3) [OF inv]
  note Jp = merge_inv2D(4) [OF inv]
  note Jle = merge_inv2D(5) [OF inv]
  note Jex = merge_inv2D(6) [OF inv]
  note dist = merge_invD(1) [OF I]
  note ktk = merge_invD(2) [OF I]
  note knex = merge_invD(4) [OF I]
  note frame = merge_invD(5) [OF I]
  have tk0: "title_key (h book) = title_key (h0 book)" by (rule merge_inv_title_key [OF I])
  from merge_book_inv [OF step I] have I': "merge_inv h0 en st'" .
  from step show ?thesis
  proof (cases rule: merge_book_cases)
    case skip
    have nb: "\<not> is_existing k en \<Longrightarrow> title_key (h0 book) \<noteq> Some k" for k
      using skip(2) [of k] tk0 by auto
    show ?thesis unfolding skip(1)
    proof (rule merge_inv2I)
      show "merge_inv h0 en (h, ab)" by (rule I)
      show "distinct (map fst (h a))" for a by (rule wf)
      show "k \<in> fst ` set ab" if "a \<in> set (processed @ [book])" "title_key (h0 a) = Some k"
        "\<not> is_existing k en" for a k
        using that J1 [of a k] nb [of k] by auto
      show "e \<in> set (processed @ [book])" if "(k, e) \<in> set ab" for k e
        using Jp [OF that] by simp
      show "note_len (h0 a) \<le> note_len (h e)" if "(k, e) \<in> set ab" "a \<in> set (processed @ [book])"
        "title_key (h0 a) = Some k" for k e a
        using that Jle [of k e a] nb [of k] knex [of k e] by auto
      show "\<exists>a \<in> set (processed @ [book]). title_key (h0 a) = Some k \<and>
              map_of (h e) ''Raw_Info'' = map_of (h0 a) ''Raw_Info''" if "(k, e) \<in> set ab" for k e
        using Jex [OF that] by auto
    qed
  next
    case (add key)
    from add(3) have knew: "key \<notin> fst ` set ab" by (simp add: map_of_eq_None_iff)
    have notkept: "book \<notin> snd ` set ab"
    proof
      assume "book \<in> snd ` set ab"
      then obtain k where kb: "(k, book) \<in> set ab" by force
      from ktk [OF kb] add(1) have "k = key" by simp
      with kb knew show False by force
    qed
    then have hb: "h book = h0 book" by (rule frame)
    have fresh: "a \<in> set processed \<Longrightarrow> title_key (h0 a) \<noteq> Some key" for a
      using J1 [of a key] add(2) knew by auto
    show ?thesis unfolding add(4)
    proof (rule merge_inv2I)
      show "merge_inv h0 en (h, ab @ [(key, book)])" using I' by (simp add: add(4))
      show "distinct (map fst (h a))" for a by (rule wf)
      show "k \<in> fst ` set (ab @ [(key, book)])" if "a \<in> set (processed @ [book])"
        "title_key (h0 a) = Some k" "\<not> is_existing k en" for a k
      proof (cases "a = book")
        case True
        with that(2) tk0 add(1) have "k = key" by simp
        then show ?thesis by simp
      next
        case False
        with that J1 [of a k] show ?thesis by auto
      qed
      show "e \<in> set (processed @ [book])" if "(k, e) \<in> set (ab @ [(key, book)])" for k e
        using that Jp [of k e] by auto
      show "note_len (h0 a) \<le> note_len (h e)" if m: "(k, e) \<in> set (ab @ [(key, book)])"
        and a: "a \<in> set (processed @ [book])" and t: "title_key (h0 a) = Some k" for k e a
      proof (cases "(k, e) \<in> set ab")
        case True
        then have "k \<noteq> key" using knew by force
        with t tk0 add(1) have "a \<noteq> book" by auto
        with a Jle [OF True _ t] show ?thesis by simp
      next
        case False
        with m have ke: "k = key" "e = book" by simp_all
        with t fresh [of a] a have "a = book" by auto
        with ke hb show ?thesis by simp
      qed
      show "\<exists>a \<in> set (processed @ [book]). title_key (h0 a) = Some k \<and>
              map_of (h e) ''Raw_Info'' = map_of (h0 a) ''Raw_Info''"
        if m: "(k, e) \<in> set (ab @ [(key, book)])" for k e
      proof (cases "(k, e) \<in> set ab")
        case True
        from Jex [OF True] show ?thesis by auto
      next
        case False
        with m have ke: "k = key" "e = book" by simp_all
        have "title_key (h0 book) = Some key" using tk0 add(1) by simp
        with ke hb show ?thesis by simp
      qed
    qed
  next
    case (fold key e dnew)
    from fold(3) have mem: "(key, e) \<in> set ab" by (rule map_of_SomeD)
    from merge_items_note [OF fold(4) wf] have
      nlen: "note_len dnew = max (note_len (h e)) (note_len (h book))" and
      nval: "map_of dnew ''Raw_Info'' = map_of (h e) ''Raw_Info'' \<or>
             map_of dnew ''Raw_Info'' = map_of (h book) ''Raw_Info''"
      by simp_all
    have tkb: "title_key (h0 book) = Some key" using tk0 fold(1) by simp
    have book_cases: "book = e \<or> h book = h0 book"
    proof (cases "book \<in> snd ` set ab")
      case True
      then obtain k where kb: "(k, book) \<in> set ab" by force
      from ktk [OF kb] fold(1) have "k = key" by simp
      with kb mem map_of_unique [OF dist] show ?thesis by blast
    next
      case False
      with frame show ?thesis by simp
    qed
    have only: "k = key" if "(k, e) \<in> set ab" for k
      using ktk [OF that] ktk [OF mem] by simp
    have other: "k \<noteq> key" if "(k, e1) \<in> set ab" "e1 \<noteq> e" for k e1
      using that mem map_of_unique [OF dist] by blast
    show ?thesis unfolding fold(5)
    proof (rule merge_inv2I)
      show "merge_inv h0 en (h(e := dnew), ab)" using I' by (simp add: fold(5))
      show "distinct (map fst ((h(e := dnew)) a))" for a
        using wf merge_items_distinct [OF fold(4) wf] by simp
      show "k \<in> fst ` set ab" if "a \<in> set (processed @ [book])" "title_key (h0 a) = Some k"
        "\<not> is_existing k en" for a k
      proof (cases "a = book")
        case True
        with that(2) tkb have "k = key" by simp
        with mem show ?thesis by force
      next
        case False
        with that J1 [of a k] show ?thesis by auto
      qed
      show "e1 \<in> set (processed @ [book])" if "(k, e1) \<in> set ab" for k e1
        using Jp [OF that] by simp
      show "note_len (h0 a) \<le> note_len ((h(e := dnew)) e1)" if m: "(k, e1) \<in> set ab"
        and a: "a \<in> set (processed @ [book])" and t: "title_key (h0 a) = Some k" for k e1 a
      proof (cases "e1 = e")
        case True
        with m only have k: "k = key" by simp
        have le_e: "note_len (h0 e) \<le> note_len (h e)"
          using Jle [OF mem Jp [OF mem]] merge_inv_title_key [OF I, of e] ktk [OF mem] by simp
        have "note_len (h0 a) \<le> max (note_len (h e)) (note_len (h book))"
        proof (cases "a \<in> set processed")
          case True
          with Jle [OF mem True] t k show ?thesis by simp
        next
          case False
          with a have "a = book" by simp
          with book_cases le_e show ?thesis by auto
        qed
        with True nlen show ?thesis by simp
      next
        case False
        from other [OF m False] t tkb have "a \<noteq> book" by auto
        with a Jle [OF m _ t] False show ?thesis by simp
      qed
      show "\<exists>a \<in> set (processed @ [book]). title_key (h0 a) = Some k \<and>
              map_of ((h(e := dnew)) e1) ''Raw_Info'' = map_of (h0 a) ''Raw_Info''"
        if m: "(k, e1) \<in> set ab" for k e1
      proof (cases "e1 = e")
        case True
        with m only have k: "k = key" by simp
        from Jex [OF mem] obtain a0 where a0: "a0 \<in> set processed" "title_key (h0 a0) = Some key"
          "map_of (h e) ''Raw_Info'' = map_of (h0 a0) ''Raw_Info''" by blast
        from nval show ?thesis
        proof
          assume "map_of dnew ''Raw_Info'' = map_of (h e) ''Raw_Info''"
          with a0 True k show ?thesis by auto
        next
          assume nb: "map_of dnew ''Raw_Info'' = map_of (h book) ''Raw_Info''"
          from book_cases show ?thesis
          proof
            assume "book = e"
            with nb a0 True k show ?thesis by auto
          next
            assume "h book = h0 book"
            with nb tkb True k show ?thesis by auto
          qed
        qed
      next
        case False
        with Jex [OF m] show ?thesis by auto
      qed
    qed
  qed
qed

lemma merge_source_inv2:
  "merge_source en todo st = Inr st' \<Longrightarrow> merge_inv2 h0 en processed st
   \<Longrightarrow> merge_inv2 h0 en (processed @ todo) st'"
proof (induction todo arbitrary: st processed)
  case Nil
  then show ?case by simp
next
  case (Cons book todo)
  obtain h ab where st: "st = (h, ab)" by (cases st)
  from Cons.prems(1) obtain st1 where a: "merge_book en book (h, ab) = Inr st1"
    and b: "merge_source en todo st1 = Inr st'" by (auto simp: st split: sum.splits)
  from merge_book_inv2 [OF a Cons.prems(2) [unfolded st]]
  have "merge_inv2 h0 en (processed @ [book]) st1" .
  from Cons.IH [OF b this] show ?case by simp
qed

lemma merge_inv2_init: "(\<And>a. distinct (map fst (h a))) \<Longrightarrow> merge_inv2 h en [] (h, [])"
  by (rule merge_inv2I) (simp_all add: merge_inv_init)

lemma merge_result2:
  assumes "merge sources et h = Inr (h', res)" "\<And>a. distinct (map fst (h a))"
  shows "\<exists>ab. res = map snd ab \<and> merge_inv2 h (known_projection et) (concat sources) (h', ab)"
proof -
  from assms(1) obtain ab where
    ms: "merge_sources (known_projection et) sources (h, []) = Inr (h', ab)" and res: "res = map snd ab"
    by (auto simp: merge_def known_projection_def Let_def split: sum.splits prod.splits)
  from ms have "merge_source (known_projection et) (concat sources) (h, []) = Inr (h', ab)"
    by (simp add: merge_sources_concat)
  from merge_source_inv2 [OF this merge_inv2_init [OF assms(2)]] res show ?thesis by auto
qed

lemma pet_heap_distinct: "distinct (map fst (pet_heap a))"
  by (simp add: pet_heap_def pet_first_def pet_second_def)

lemma pet_keys:
  "title_key (pet_heap 1) = Some ''pet sematary''"
  "title_key ((pet_heap(0 := pet_merged)) 0) = Some ''pet sematary''"
  by (simp_all add: title_key_def pet_heap_def pet_second_def pet_merged_def norm_pet)

lemma pet_notes:
  "note_len (pet_heap 0) = 5" "note_len (pet_heap 1) = 23"
  "note_len ((pet_heap(0 := pet_merged)) 0) = 23"
  by (simp_all add: note_len_def pet_heap_def pet_first_def pet_second_def pet_merged_def)

text \<open>
  C4: in the list that \<open>merge\<close> returns no two records have the same normalized key, and every
  candidate of the sources with a non-empty title whose key passes the existence check has a
  record with its key in the list; the note \<open>Raw_Info\<close> of a returned record is the note of one
  of the candidates with its key and is at least as long as the note of each of them; every
  other field is folded by \<open>_merge_book_data\<close> so that a value that is present and truthy is
  kept and an absent or falsy one is replaced by the value of the incoming record. The two
  \<open>Pet Sematary\<close> records give one record with the longer note and the year of the second.
\<close>

theorem C4_one_record_per_key:
  assumes "merge sources existing_titles h = Inr (h', res)"
    and "\<And>a. distinct (map fst (h a))"
  shows "distinct (map (\<lambda>b. title_key (h' b)) res) \<and>
    (\<forall>b \<in> set res. title_key (h' b) \<noteq> None) \<and>
    (\<forall>a \<in> set (concat sources). \<forall>k.
        title_key (h a) = Some k \<and> \<not> is_existing k (known_projection existing_titles)
        \<longrightarrow> (\<exists>b \<in> set res. title_key (h' b) = Some k)) \<and>
    (\<forall>b \<in> set res. \<forall>a \<in> set (concat sources).
        title_key (h a) = title_key (h' b) \<longrightarrow> note_len (h a) \<le> note_len (h' b)) \<and>
    (\<forall>b \<in> set res. \<exists>a \<in> set (concat sources).
        title_key (h a) = title_key (h' b) \<and>
        map_of (h' b) ''Raw_Info'' = map_of (h a) ''Raw_Info'') \<and>
    (\<forall>d items d' f.
        merge_items d items = Inr d' \<and> distinct (map fst items) \<and> f \<noteq> ''Raw_Info'' \<longrightarrow>
        map_of d' f =
          (case map_of d f of
             Some v \<Rightarrow> if truthy v then Some v
                       else (case map_of items f of Some w \<Rightarrow> Some w | None \<Rightarrow> Some v)
           | None \<Rightarrow> map_of items f)) \<and>
    merge [[0], [1]] None pet_heap = Inr (pet_heap(0 := pet_merged), [0])"
proof -
  let ?E = "known_projection existing_titles"
  from merge_result2 [OF assms] obtain ab where res: "res = map snd ab"
    and inv: "merge_inv2 h ?E (concat sources) (h', ab)" by blast
  note I = merge_inv2D(1) [OF inv]
  note J1 = merge_inv2D(3) [OF inv]
  note Jle = merge_inv2D(5) [OF inv]
  note Jex = merge_inv2D(6) [OF inv]
  note dist = merge_invD(1) [OF I]
  note ktk = merge_invD(2) [OF I]
  have keys: "map (\<lambda>b. title_key (h' b)) res = map Some (map fst ab)"
    unfolding res using ktk by auto
  have "distinct (map Some (map fst ab))"
    by (subst distinct_map) (simp add: dist)
  then have c1: "distinct (map (\<lambda>b. title_key (h' b)) res)"
    by (simp only: keys)
  have c2: "\<forall>b \<in> set res. title_key (h' b) \<noteq> None"
    unfolding res using ktk by auto
  have c3: "\<forall>a \<in> set (concat sources). \<forall>k.
        title_key (h a) = Some k \<and> \<not> is_existing k ?E \<longrightarrow> (\<exists>b \<in> set res. title_key (h' b) = Some k)"
  proof (intro ballI allI impI)
    fix a k assume a: "a \<in> set (concat sources)"
      and k: "title_key (h a) = Some k \<and> \<not> is_existing k ?E"
    with J1 [OF a] have "k \<in> fst ` set ab" by blast
    then obtain e where e: "(k, e) \<in> set ab" by force
    then have "e \<in> set res" unfolding res by force
    with ktk [OF e] show "\<exists>b \<in> set res. title_key (h' b) = Some k" by blast
  qed
  have c4: "\<forall>b \<in> set res. \<forall>a \<in> set (concat sources).
        title_key (h a) = title_key (h' b) \<longrightarrow> note_len (h a) \<le> note_len (h' b)"
  proof (intro ballI impI)
    fix b a assume b: "b \<in> set res" and a: "a \<in> set (concat sources)"
      and t: "title_key (h a) = title_key (h' b)"
    from b obtain k where kb: "(k, b) \<in> set ab" unfolding res by force
    from t ktk [OF kb] have "title_key (h a) = Some k" by simp
    from Jle [OF kb a this] show "note_len (h a) \<le> note_len (h' b)" .
  qed
  have c5: "\<forall>b \<in> set res. \<exists>a \<in> set (concat sources).
        title_key (h a) = title_key (h' b) \<and> map_of (h' b) ''Raw_Info'' = map_of (h a) ''Raw_Info''"
  proof
    fix b assume b: "b \<in> set res"
    then obtain k where kb: "(k, b) \<in> set ab" unfolding res by force
    from Jex [OF kb] ktk [OF kb]
    show "\<exists>a \<in> set (concat sources).
        title_key (h a) = title_key (h' b) \<and> map_of (h' b) ''Raw_Info'' = map_of (h a) ''Raw_Info''"
      by auto
  qed
  have c6: "\<forall>d items d' f.
        merge_items d items = Inr d' \<and> distinct (map fst items) \<and> f \<noteq> ''Raw_Info'' \<longrightarrow>
        map_of d' f =
          (case map_of d f of
             Some v \<Rightarrow> if truthy v then Some v
                       else (case map_of items f of Some w \<Rightarrow> Some w | None \<Rightarrow> Some v)
           | None \<Rightarrow> map_of items f)"
    using merge_items_field by blast
  from c1 c2 c3 c4 c5 c6 merge_pet show ?thesis by blast
qed

theorem C4_one_record_per_key_witness:
  "merge [[0], [1]] None pet_heap = Inr (pet_heap(0 := pet_merged), [0]) \<and>
   distinct (map fst (pet_heap 0)) \<and> distinct (map fst (pet_heap 1)) \<and>
   title_key (pet_heap 1) = title_key ((pet_heap(0 := pet_merged)) 0) \<and>
   note_len (pet_heap 1) \<le> note_len ((pet_heap(0 := pet_merged)) 0) \<and>
   note_len ((pet_heap(0 := pet_merged)) 0) = 23"
proof -
  from C4_one_record_per_key [OF merge_pet pet_heap_distinct]
  have "\<forall>b \<in> set [0]. \<forall>a \<in> set (concat [[0], [1::nat]]).
          title_key (pet_heap a) = title_key ((pet_heap(0 := pet_merged)) b)
          \<longrightarrow> note_len (pet_heap a) \<le> note_len ((pet_heap(0 := pet_merged)) b)"
    by blast
  then have "title_key (pet_heap 1) = title_key ((pet_heap(0 := pet_merged)) 0)
          \<longrightarrow> note_len (pet_heap 1) \<le> note_len ((pet_heap(0 := pet_merged)) 0)"
    by simp
  with pet_keys pet_notes pet_heap_distinct merge_pet show ?thesis by simp
qed

end
